theory Spec2Isabelle
  imports Main "HOL-Library.Log_Nat"
begin

section \<open>JavaScript numbers\<close>

text \<open>
  Every field of a Range and every intermediate value of \<^verbatim>\<open>src/type/Range.js\<close> is a
  JavaScript Number, an IEEE 754 binary64 value. A Number is modelled by what it denotes:
  not-a-number, one of the two infinities, negative zero, or a finite value
  \<open>Fin m k\<close> standing for the dyadic rational \<open>m / 2^k\<close> (\<open>Fin 0 0\<close> is positive
  zero, \<open>Fin n 0\<close> the integer \<open>n\<close>). The operations produce the representation in
  lowest terms (\<open>k = 0\<close> or \<open>m\<close> odd), so that equal values are equal terms. The
  arithmetic computes the exact result as a fraction of two integers and rounds it to the
  nearest binary64 value, ties to even, which is how IEEE 754 defines the operations.
\<close>

datatype number = NaN | PInf | NInf | NegZero | Fin int nat

text \<open>
  \<open>flog2 a b\<close> is the binary exponent of the positive fraction \<open>a / b\<close>: the \<open>e\<close>
  with \<open>2^e \<le> a / b < 2^(e+1)\<close>.
\<close>

definition flog2 :: "int \<Rightarrow> int \<Rightarrow> int" where
  "flog2 a b = (let e = bitlen a - bitlen b in
     if (if 0 \<le> e then a < b * 2 ^ nat e else a * 2 ^ nat (- e) < b) then e - 1 else e)"

text \<open>The integer nearest to \<open>n / d\<close> (\<open>0 \<le> n\<close>, \<open>0 < d\<close>), a tie to the even neighbour.\<close>

definition rne_div :: "int \<Rightarrow> int \<Rightarrow> int" where
  "rne_div n d = (let f = n div d; r = n mod d in
     if 2 * r < d then f else if d < 2 * r then f + 1 else if even f then f else f + 1)"

text \<open>\<open>norm m k\<close> is \<open>m / 2^k\<close> in lowest terms.\<close>

fun norm :: "int \<Rightarrow> nat \<Rightarrow> number" where
  "norm m 0 = Fin m 0"
| "norm m (Suc k) = (if even m then norm (m div 2) k else Fin m (Suc k))"

definition zero_of :: "bool \<Rightarrow> number" where
  "zero_of neg = (if neg then NegZero else Fin 0 0)"

definition inf_of :: "bool \<Rightarrow> number" where
  "inf_of neg = (if neg then NInf else PInf)"

text \<open>
  The Number for the exact nonzero result \<open>\<plusminus> a / b\<close> (\<open>0 < a\<close>, \<open>0 < b\<close>, the sign
  given apart). The result is a multiple of \<open>2^t\<close>, where \<open>t\<close> leaves 53 significant
  bits in the normal range and is \<open>-1074\<close> below \<open>2^-1022\<close> (gradual underflow); a
  rounded magnitude of \<open>2^1024\<close> or more overflows to an infinity, one of 0 underflows
  to the zero of that sign.
\<close>

definition round_frac :: "bool \<Rightarrow> int \<Rightarrow> int \<Rightarrow> number" where
  "round_frac neg a b =
     (let t = max (flog2 a b) (- 1022) - 52;
          m = (if 0 \<le> t then rne_div a (b * 2 ^ nat t) else rne_div (a * 2 ^ nat (- t)) b)
      in if 0 \<le> t then
           (if 2 ^ 1024 \<le> m * 2 ^ nat t then inf_of neg
            else Fin ((if neg then - m else m) * 2 ^ nat t) 0)
         else if m = 0 then zero_of neg
         else norm (if neg then - m else m) (nat (- t)))"

text \<open>The Number nearest to an integer.\<close>

definition num_of_int :: "int \<Rightarrow> number" where
  "num_of_int n = (if n = 0 then Fin 0 0 else round_frac (n < 0) \<bar>n\<bar> 1)"

definition isNaN :: "number \<Rightarrow> bool" where
  "isNaN x = (x = NaN)"

definition is_inf :: "number \<Rightarrow> bool" where
  "is_inf x = (x = PInf \<or> x = NInf)"

text \<open>Numerator and denominator exponent of a finite Number; (0, 0) on the other values.\<close>

fun mant :: "number \<Rightarrow> int" where
  "mant (Fin m k) = m"
| "mant _ = 0"

fun expo :: "number \<Rightarrow> nat" where
  "expo (Fin m k) = k"
| "expo _ = 0"

definition is_zero :: "number \<Rightarrow> bool" where
  "is_zero x = (\<not> isNaN x \<and> \<not> is_inf x \<and> mant x = 0)"

text \<open>The sign bit.\<close>

fun is_neg :: "number \<Rightarrow> bool" where
  "is_neg NInf = True"
| "is_neg NegZero = True"
| "is_neg (Fin m k) = (m < 0)"
| "is_neg _ = False"

fun js_neg :: "number \<Rightarrow> number" where
  "js_neg NaN = NaN"
| "js_neg PInf = NInf"
| "js_neg NInf = PInf"
| "js_neg NegZero = Fin 0 0"
| "js_neg (Fin m k) = (if m = 0 then NegZero else Fin (- m) k)"

text \<open>
  The operator \<^verbatim>\<open>+\<close> on two Numbers. The sum of two finite values is exact over the
  common denominator \<open>2^k\<close> and is rounded once; an exact zero sum is positive zero
  unless both operands are negative zero.
\<close>

fun js_add :: "number \<Rightarrow> number \<Rightarrow> number" where
  "js_add NaN _ = NaN"
| "js_add _ NaN = NaN"
| "js_add PInf NInf = NaN"
| "js_add NInf PInf = NaN"
| "js_add PInf _ = PInf"
| "js_add _ PInf = PInf"
| "js_add NInf _ = NInf"
| "js_add _ NInf = NInf"
| "js_add NegZero y = y"
| "js_add x NegZero = x"
| "js_add (Fin m1 k1) (Fin m2 k2) =
     (let k = max k1 k2; s = m1 * 2 ^ (k - k1) + m2 * 2 ^ (k - k2)
      in if s = 0 then Fin 0 0 else round_frac (s < 0) \<bar>s\<bar> (2 ^ k))"

text \<open>The operator \<^verbatim>\<open>-\<close>: IEEE 754 subtraction is addition of the negated operand.\<close>

definition js_sub :: "number \<Rightarrow> number \<Rightarrow> number" where
  "js_sub x y = js_add x (js_neg y)"

text \<open>
  The operator \<^verbatim>\<open>/\<close>. The quotient of the finite nonzero values \<open>m1 / 2^k1\<close> and
  \<open>m2 / 2^k2\<close> is the fraction \<open>(m1 * 2^k2) / (m2 * 2^k1)\<close>.
\<close>

definition js_div :: "number \<Rightarrow> number \<Rightarrow> number" where
  "js_div x y =
     (if isNaN x \<or> isNaN y then NaN
      else if is_inf x then (if is_inf y then NaN else inf_of (is_neg x \<noteq> is_neg y))
      else if is_inf y then zero_of (is_neg x \<noteq> is_neg y)
      else if is_zero y then (if is_zero x then NaN else inf_of (is_neg x \<noteq> is_neg y))
      else if is_zero x then zero_of (is_neg x \<noteq> is_neg y)
      else round_frac (is_neg x \<noteq> is_neg y)
             (\<bar>mant x\<bar> * 2 ^ expo y) (\<bar>mant y\<bar> * 2 ^ expo x))"

text \<open>
  The operator \<^verbatim>\<open>*\<close>. The code of the Range never multiplies; the operator serves
  to state the closed form \<open>start + k * step\<close> of a progression.
\<close>

definition js_mul :: "number \<Rightarrow> number \<Rightarrow> number" where
  "js_mul x y =
     (if isNaN x \<or> isNaN y then NaN
      else if is_inf x \<or> is_inf y
        then (if is_zero x \<or> is_zero y then NaN else inf_of (is_neg x \<noteq> is_neg y))
      else if is_zero x \<or> is_zero y then zero_of (is_neg x \<noteq> is_neg y)
      else round_frac (is_neg x \<noteq> is_neg y) (\<bar>mant x\<bar> * \<bar>mant y\<bar>) (2 ^ (expo x + expo y)))"

text \<open>\<^verbatim>\<open>Math.floor\<close>: exact on every Number; a value in (0,1) gives positive zero.\<close>

fun js_floor :: "number \<Rightarrow> number" where
  "js_floor (Fin m k) = Fin (m div 2 ^ k) 0"
| "js_floor x = x"

text \<open>
  The comparisons. \<open>rank\<close> places the infinities below and above every finite value,
  finite values compare by cross multiplication, and a comparison with a NaN operand is
  false.
\<close>

fun rank :: "number \<Rightarrow> int" where
  "rank NInf = - 1"
| "rank PInf = 1"
| "rank _ = 0"

definition js_lt :: "number \<Rightarrow> number \<Rightarrow> bool" where
  "js_lt x y = (\<not> isNaN x \<and> \<not> isNaN y \<and>
     (rank x < rank y \<or>
      (rank x = rank y \<and> mant x * 2 ^ expo y < mant y * 2 ^ expo x)))"

definition js_le :: "number \<Rightarrow> number \<Rightarrow> bool" where
  "js_le x y = (\<not> isNaN x \<and> \<not> isNaN y \<and>
     (rank x < rank y \<or>
      (rank x = rank y \<and> mant x * 2 ^ expo y \<le> mant y * 2 ^ expo x)))"

definition js_gt :: "number \<Rightarrow> number \<Rightarrow> bool" where
  "js_gt x y = js_lt y x"

definition js_ge :: "number \<Rightarrow> number \<Rightarrow> bool" where
  "js_ge x y = js_le y x"

definition js_eq :: "number \<Rightarrow> number \<Rightarrow> bool" where
  "js_eq x y = (\<not> isNaN x \<and> \<not> isNaN y \<and> rank x = rank y \<and>
     mant x * 2 ^ expo y = mant y * 2 ^ expo x)"

definition js_ne :: "number \<Rightarrow> number \<Rightarrow> bool" where
  "js_ne x y = (\<not> js_eq x y)"

text \<open>
  The finite terms that are Numbers: in lowest terms, and left as they are by rounding.
  The operations above return such terms only.
\<close>

definition binary64 :: "number \<Rightarrow> bool" where
  "binary64 x =
     (case x of
        Fin m k \<Rightarrow> (k = 0 \<or> odd m) \<and> (m = 0 \<or> round_frac (m < 0) \<bar>m\<bar> (2 ^ k) = Fin m k)
      | _ \<Rightarrow> True)"

text \<open>The finite Numbers: neither NaN nor an infinity.\<close>

definition isFinite :: "number \<Rightarrow> bool" where
  "isFinite x = (\<not> isNaN x \<and> \<not> is_inf x)"

section \<open>Strings and the conversion of a string to a Number\<close>

text \<open>
  A JavaScript string is a sequence of UTF-16 code units, each modelled by its integer
  value. \<open>ascii\<close> embeds an Isabelle string literal.
\<close>

type_synonym jsstring = "int list"

definition ascii :: "string \<Rightarrow> jsstring" where
  "ascii s = map of_char s"

text \<open>
  \<^verbatim>\<open>str.split(':')\<close> with a one-character separator: the pieces between the
  separators, empty pieces kept; the empty string gives one empty piece.
\<close>

fun split :: "int \<Rightarrow> jsstring \<Rightarrow> jsstring list" where
  "split sep [] = [[]]"
| "split sep (c # cs) =
     (if c = sep then [] # split sep cs
      else (case split sep cs of [] \<Rightarrow> [[c]] | t # ts \<Rightarrow> (c # t) # ts))"

text \<open>
  \<^verbatim>\<open>Number(arg)\<close> on a string is the StringToNumber conversion of ECMAScript: white
  space and line terminators are trimmed; the empty string is 0; a \<^verbatim>\<open>0x\<close>,
  \<^verbatim>\<open>0o\<close> or \<^verbatim>\<open>0b\<close> literal is an unsigned integer in that radix; otherwise the
  string must be a decimal literal (optional sign; \<^verbatim>\<open>Infinity\<close>, or digits with an
  optional fraction and an optional exponent), whose mathematical value is rounded to the
  nearest Number; everything else is NaN.
\<close>

definition is_ws :: "int \<Rightarrow> bool" where
  "is_ws c = (c \<in> set [9, 10, 11, 12, 13, 32, 160, 5760, 8232, 8233, 8239, 8287, 12288, 65279]
     \<or> (8192 \<le> c \<and> c \<le> 8202))"

definition trim :: "jsstring \<Rightarrow> jsstring" where
  "trim s = rev (dropWhile is_ws (rev (dropWhile is_ws s)))"

definition radix_digit :: "int \<Rightarrow> int option" where
  "radix_digit c =
     (if 48 \<le> c \<and> c \<le> 57 then Some (c - 48)
      else if 97 \<le> c \<and> c \<le> 102 then Some (c - 87)
      else if 65 \<le> c \<and> c \<le> 70 then Some (c - 55)
      else None)"

definition is_digit_in :: "int \<Rightarrow> int \<Rightarrow> bool" where
  "is_digit_in b c = (case radix_digit c of None \<Rightarrow> False | Some d \<Rightarrow> d < b)"

definition digits_value :: "int \<Rightarrow> jsstring \<Rightarrow> int" where
  "digits_value b s =
     foldl (\<lambda>a c. a * b + (case radix_digit c of None \<Rightarrow> 0 | Some d \<Rightarrow> d)) 0 s"

text \<open>The value of \<open>\<plusminus> d * 10^ex\<close> as a Number.\<close>

definition decimal_value :: "bool \<Rightarrow> int \<Rightarrow> int \<Rightarrow> number" where
  "decimal_value neg d ex =
     (if d = 0 then zero_of neg
      else if 0 \<le> ex then round_frac neg (d * 10 ^ nat ex) 1
      else round_frac neg d (10 ^ nat (- ex)))"

text \<open>The exponent part of a decimal literal: nothing, or e/E, an optional sign and digits.\<close>

definition exponent_part :: "jsstring \<Rightarrow> int option" where
  "exponent_part s =
     (case s of
        [] \<Rightarrow> Some 0
      | c # r \<Rightarrow>
          if c = 101 \<or> c = 69 then
            (let neg = (r \<noteq> [] \<and> hd r = 45);
                 ds = (if r \<noteq> [] \<and> (hd r = 43 \<or> hd r = 45) then tl r else r)
             in if ds \<noteq> [] \<and> list_all (is_digit_in 10) ds
                then Some (if neg then - digits_value 10 ds else digits_value 10 ds)
                else None)
          else None)"

definition str_decimal :: "jsstring \<Rightarrow> number" where
  "str_decimal s =
     (let neg = (s \<noteq> [] \<and> hd s = 45);
          body = (if s \<noteq> [] \<and> (hd s = 43 \<or> hd s = 45) then tl s else s)
      in if body = ascii ''Infinity'' then inf_of neg
         else
           (let ip = takeWhile (is_digit_in 10) body;
                r1 = dropWhile (is_digit_in 10) body;
                dot = (r1 \<noteq> [] \<and> hd r1 = 46);
                fp = (if dot then takeWhile (is_digit_in 10) (tl r1) else []);
                r2 = (if dot then dropWhile (is_digit_in 10) (tl r1) else r1)
            in if ip = [] \<and> fp = [] then NaN
               else (case exponent_part r2 of
                       None \<Rightarrow> NaN
                     | Some ex \<Rightarrow>
                         decimal_value neg (digits_value 10 (ip @ fp)) (ex - int (length fp)))))"

definition radix_literal :: "int \<Rightarrow> jsstring \<Rightarrow> number" where
  "radix_literal b ds =
     (if ds \<noteq> [] \<and> list_all (is_digit_in b) ds then num_of_int (digits_value b ds) else NaN)"

definition StringToNumber :: "jsstring \<Rightarrow> number" where
  "StringToNumber s =
     (let t = trim s
      in if t = [] then Fin 0 0
         else if take 2 t = ascii ''0x'' \<or> take 2 t = ascii ''0X'' then radix_literal 16 (drop 2 t)
         else if take 2 t = ascii ''0o'' \<or> take 2 t = ascii ''0O'' then radix_literal 8 (drop 2 t)
         else if take 2 t = ascii ''0b'' \<or> take 2 t = ascii ''0B'' then radix_literal 2 (drop 2 t)
         else str_decimal t)"

section \<open>Values and the helpers of the library\<close>

text \<open>The primitive values a caller can pass where the code expects a number or a string.\<close>

datatype jsval = Undefined | Null | Boolean bool | Num number | Str jsstring

text \<open>\<^verbatim>\<open>Number(v)\<close>, the ToNumber conversion.\<close>

fun Number :: "jsval \<Rightarrow> number" where
  "Number Undefined = NaN"
| "Number Null = Fin 0 0"
| "Number (Boolean b) = (if b then Fin 1 0 else Fin 0 0)"
| "Number (Num n) = n"
| "Number (Str s) = StringToNumber s"

text \<open>
  Modelled from the spec: \<^verbatim>\<open>isNumber\<close> is a helper of the library that is not part
  of \<^verbatim>\<open>Range.js\<close>. The spec asks that a provided parameter ``must be a numeric
  value''.
\<close>

fun isNumber :: "jsval \<Rightarrow> bool" where
  "isNumber (Num n) = True"
| "isNumber _ = False"

text \<open>
  Modelled from the spec: \<^verbatim>\<open>isString\<close> is a helper of the library that is not part
  of \<^verbatim>\<open>Range.js\<close>. The spec: ``Non-string input yields null''.
\<close>

fun isString :: "jsval \<Rightarrow> bool" where
  "isString (Str s) = True"
| "isString _ = False"

text \<open>\<^verbatim>\<open>v != null\<close>: false on null and undefined only.\<close>

fun not_null :: "jsval \<Rightarrow> bool" where
  "not_null Undefined = False"
| "not_null Null = False"
| "not_null _ = True"

text \<open>
  Modelled from the spec: \<^verbatim>\<open>math.sign\<close> is a function of the library that is not part
  of \<^verbatim>\<open>Range.js\<close>. The spec: ``\<^verbatim>\<open>sign(x)\<close> is the generic sign function: +1 for
  positive, -1 for negative, 0 for exactly zero'', with results in \<^verbatim>\<open>-1 | 0 | 1\<close>. NaN is
  neither positive nor negative, so it falls to the last case.
\<close>

definition sign :: "number \<Rightarrow> number" where
  "sign x = (if js_gt x (Fin 0 0) then Fin 1 0
             else if js_lt x (Fin 0 0) then Fin (- 1) 0
             else Fin 0 0)"

section \<open>The Range of \<^verbatim>\<open>src/type/Range.js\<close>\<close>

text \<open>
  A Range object holds the three fields the constructor assigns. The constructor lets
  only numbers through, so the fields are Numbers (the field \<^verbatim>\<open>end\<close> is \<open>end'\<close>
  here, \<open>end\<close> being a keyword).
\<close>

record range_obj =
  start :: number
  step :: number
  end' :: number

datatype error = SyntaxError string | TypeError string

text \<open>
  The constructor. \<open>new\<close> tells whether it was called with the \<^verbatim>\<open>new\<close> operator
  (\<^verbatim>\<open>this instanceof Range\<close>). The checks run in the order of the source: start, end,
  step.
\<close>

definition Range :: "bool \<Rightarrow> jsval \<Rightarrow> jsval \<Rightarrow> jsval \<Rightarrow> error + range_obj" where
  "Range new start_arg step_arg end_arg =
     (if \<not> new then Inl (SyntaxError ''Range constructor must be called with the new operator'')
      else if not_null start_arg \<and> \<not> isNumber start_arg
        then Inl (TypeError ''Parameter start must be a number'')
      else if not_null end_arg \<and> \<not> isNumber end_arg
        then Inl (TypeError ''Parameter end must be a number'')
      else if not_null step_arg \<and> \<not> isNumber step_arg
        then Inl (TypeError ''Parameter step must be a number'')
      else Inr \<lparr> start = (if not_null start_arg then Number start_arg else Fin 0 0),
                 step = (if not_null step_arg then Number step_arg else Fin 1 0),
                 end' = (if not_null end_arg then Number end_arg else Fin 0 0) \<rparr>)"

text \<open>
  \<^verbatim>\<open>Range.parse\<close>. The result \<open>Inr None\<close> is null; an \<open>Inl\<close> would be an exception
  of the constructor.
\<close>

definition parse :: "jsval \<Rightarrow> error + range_obj option" where
  "parse str =
     (case str of
        Str s \<Rightarrow>
          (let args = split 58 s;
               nums = map (\<lambda>arg. Number (Str arg)) args;
               invalid = list_ex isNaN nums
           in if invalid then Inr None
              else (case nums of
                      [n0, n1] \<Rightarrow> map_sum id Some (Range True (Num n0) (Num (Fin 1 0)) (Num n1))
                    | [n0, n1, n2] \<Rightarrow> map_sum id Some (Range True (Num n0) (Num n1) (Num n2))
                    | _ \<Rightarrow> Inr None))
      | _ \<Rightarrow> Inr None)"

definition clone :: "range_obj \<Rightarrow> error + range_obj" where
  "clone this = Range True (Num (start this)) (Num (step this)) (Num (end' this))"

text \<open>\<^verbatim>\<open>Range.prototype.size\<close>: the one-element array \<^verbatim>\<open>[len]\<close>.\<close>

definition size_range :: "range_obj \<Rightarrow> number list" where
  "size_range this =
     (let start = Number (Num (start this));
          step = Number (Num (step this));
          end = Number (Num (end' this));
          diff = js_sub end start;
          len = (if js_eq (sign step) (sign diff)
                 then js_add (js_floor (js_div diff step)) (Fin 1 0)
                 else if js_eq diff (Fin 0 0) then Fin 1 0
                 else Fin 0 0)
      in [if isNaN len then Fin 0 0 else len])"

text \<open>
  The two \<^verbatim>\<open>while\<close> loops of \<^verbatim>\<open>forEach\<close> differ in the comparison only, which is
  the parameter \<open>guard\<close>. A callback takes the value, the index and the state it works
  on, and returns the new state or raises; the loop need not terminate, so its result is
  an option: \<open>None\<close> is a loop that runs forever, \<open>Some (Inl e)\<close> an exception of the
  callback, \<open>Some (Inr s)\<close> the state after the last invocation.
\<close>

partial_function (option) while_loop ::
  "(number \<Rightarrow> bool) \<Rightarrow> (number \<Rightarrow> number \<Rightarrow> 's \<Rightarrow> error + 's) \<Rightarrow> number
     \<Rightarrow> number \<Rightarrow> number \<Rightarrow> 's \<Rightarrow> (error + 's) option"
where
  "while_loop guard callback step' x i s =
     (if guard x then
        (case callback x i s of
           Inl e \<Rightarrow> Some (Inl e)
         | Inr s' \<Rightarrow> while_loop guard callback step' (js_add x step') (js_add i (Fin 1 0)) s')
      else Some (Inr s))"

text \<open>\<^verbatim>\<open>Range.prototype.forEach\<close>; the callback gets the Range as its third argument.\<close>

definition forEach ::
  "(number \<Rightarrow> number \<Rightarrow> range_obj \<Rightarrow> 's \<Rightarrow> error + 's) \<Rightarrow> range_obj \<Rightarrow> 's
     \<Rightarrow> (error + 's) option" where
  "forEach callback this s =
     (let x = Number (Num (start this));
          step = Number (Num (step this));
          end = Number (Num (end' this));
          i = Fin 0 0
      in if js_gt step (Fin 0 0)
           then while_loop (\<lambda>x. js_le x end) (\<lambda>x i. callback x i this) step x i s
         else if js_lt step (Fin 0 0)
           then while_loop (\<lambda>x. js_ge x end) (\<lambda>x i. callback x i this) step x i s
         else Some (Inr s))"

text \<open>
  A JavaScript array is a list of elements and holes (\<open>None\<close>). The assignment
  \<^verbatim>\<open>array[index] = value\<close> with a Number as index stores an element when the index is
  an array index (an integer from 0 to \<open>2^32 - 2\<close>), extending the array with holes up to
  the index; with any other index it sets a property and leaves the elements and the
  length as they are.
\<close>

type_synonym 'a array = "'a option list"

definition array_index :: "number \<Rightarrow> nat option" where
  "array_index x =
     (case x of
        Fin m k \<Rightarrow> if k = 0 \<and> 0 \<le> m \<and> m < 2 ^ 32 - 1 then Some (nat m) else None
      | NegZero \<Rightarrow> Some 0
      | _ \<Rightarrow> None)"

definition array_put :: "'a array \<Rightarrow> number \<Rightarrow> 'a \<Rightarrow> 'a array" where
  "array_put array index v =
     (case array_index index of
        None \<Rightarrow> array
      | Some n \<Rightarrow>
          if n < length array then array[n := Some v]
          else array @ replicate (n - length array) None @ [Some v])"

text \<open>
  \<^verbatim>\<open>Range.prototype.map\<close>. The callback of the caller returns a value and may change
  a state \<open>'u\<close> of its own.
\<close>

definition map_range ::
  "(number \<Rightarrow> number \<Rightarrow> range_obj \<Rightarrow> 'u \<Rightarrow> error + 'v \<times> 'u) \<Rightarrow> range_obj \<Rightarrow> 'u
     \<Rightarrow> (error + 'v array \<times> 'u) option" where
  "map_range callback this u =
     forEach (\<lambda>value index obj (array, u).
                case callback value index obj u of
                  Inl e \<Rightarrow> Inl e
                | Inr (v, u') \<Rightarrow> Inr (array_put array index v, u'))
       this ([], u)"

text \<open>\<^verbatim>\<open>Range.prototype.toArray\<close>, and its aliases \<^verbatim>\<open>toVector\<close> and \<^verbatim>\<open>valueOf\<close>.\<close>

definition toArray :: "range_obj \<Rightarrow> (error + number array) option" where
  "toArray this = forEach (\<lambda>value index obj array. Inr (array_put array index value)) this []"

definition toVector :: "range_obj \<Rightarrow> (error + number array) option" where
  "toVector = toArray"

definition valueOf :: "range_obj \<Rightarrow> (error + number array) option" where
  "valueOf this = toArray this"

definition isVector :: "range_obj \<Rightarrow> bool" where
  "isVector this = True"

text \<open>
  \<^verbatim>\<open>Range.prototype.toScalar\<close>: the element \<^verbatim>\<open>array[0]\<close> (undefined when it is a
  hole) or null.
\<close>

definition toScalar :: "range_obj \<Rightarrow> (error + jsval) option" where
  "toScalar this =
     (case toArray this of
        None \<Rightarrow> None
      | Some (Inl e) \<Rightarrow> Some (Inl e)
      | Some (Inr array) \<Rightarrow>
          Some (Inr (if length array = 1
                     then (case array ! 0 of None \<Rightarrow> Undefined | Some v \<Rightarrow> Num v)
                     else Null)))"

definition isScalar :: "range_obj \<Rightarrow> bool" where
  "isScalar this = js_eq (size_range this ! 0) (Fin 1 0)"

text \<open>
  \<^verbatim>\<open>Range.prototype.toString\<close>. The number formatter \<^verbatim>\<open>math.format\<close> is a function of
  the library outside \<^verbatim>\<open>Range.js\<close>; it is the parameter \<open>format\<close>.
\<close>

definition toString :: "(number \<Rightarrow> jsstring) \<Rightarrow> range_obj \<Rightarrow> jsstring" where
  "toString format this =
     (let str = format (Number (Num (start this)));
          str = (if js_ne (step this) (Fin 1 0)
                 then str @ ascii '':'' @ format (Number (Num (step this)))
                 else str);
          str = str @ ascii '':'' @ format (Number (Num (end' this)))
      in str)"

section \<open>The values and the invocations of a traversal\<close>

text \<open>
  \<open>iter_add d k x\<close> is \<open>x\<close> after \<open>k\<close> executions of \<^verbatim>\<open>x += d\<close>: the \<open>k\<close>-th
  value of the progression that starts at \<open>x\<close>, and with \<open>d = 1\<close> and \<open>x = 0\<close> the
  index after \<open>k\<close> executions of \<^verbatim>\<open>i++\<close>.
\<close>

fun iter_add :: "number \<Rightarrow> nat \<Rightarrow> number \<Rightarrow> number" where
  "iter_add d 0 x = x"
| "iter_add d (Suc k) x = iter_add d k (js_add x d)"

text \<open>
  \<open>progression d n x\<close> lists the first \<open>n\<close> values of the progression that starts
  at \<open>x\<close>: \<open>x\<close>, \<open>x + d\<close>, \<open>x + d + d\<close>, ...
\<close>

fun progression :: "number \<Rightarrow> nat \<Rightarrow> number \<Rightarrow> number list" where
  "progression d 0 x = []"
| "progression d (Suc n) x = x # progression d n (js_add x d)"

text \<open>
  The closed form of the \<open>k\<close>-th value as the spec words it, \<open>start + k * step\<close>,
  with the product and the sum of binary64 arithmetic.
\<close>

definition closed_form :: "number \<Rightarrow> number \<Rightarrow> nat \<Rightarrow> number" where
  "closed_form start_value step_value k =
     js_add start_value (js_mul (num_of_int (int k)) step_value)"

text \<open>
  The length as the spec words it, \<open>floor((end - start) / step) + 1\<close>, with the
  operations of binary64 arithmetic.
\<close>

definition spec_length :: "range_obj \<Rightarrow> number" where
  "spec_length r = js_add (js_floor (js_div (js_sub (end' r) (start r)) (step r))) (Fin 1 0)"

text \<open>
  \<open>run_calls callback calls s\<close> invokes the callback on the (value, index) pairs of
  \<open>calls\<close>, in order, from the state \<open>s\<close>, and stops at the first exception.
\<close>

fun run_calls ::
  "(number \<Rightarrow> number \<Rightarrow> 's \<Rightarrow> error + 's) \<Rightarrow> (number \<times> number) list \<Rightarrow> 's \<Rightarrow> error + 's" where
  "run_calls callback [] s = Inr s"
| "run_calls callback ((x, i) # calls) s =
     (case callback x i s of Inl e \<Rightarrow> Inl e | Inr s' \<Rightarrow> run_calls callback calls s')"

text \<open>A callback that writes down the three arguments of each invocation.\<close>

definition record_call ::
  "number \<Rightarrow> number \<Rightarrow> range_obj \<Rightarrow> (number \<times> number \<times> range_obj) list
     \<Rightarrow> error + (number \<times> number \<times> range_obj) list" where
  "record_call x i obj calls = Inr (calls @ [(x, i, obj)])"

text \<open>
  A callback that raises at the invocation with index \<open>n\<close> and writes down the
  arguments of the invocations before it.
\<close>

definition throw_at ::
  "number \<Rightarrow> number \<Rightarrow> number \<Rightarrow> range_obj \<Rightarrow> (number \<times> number \<times> range_obj) list
     \<Rightarrow> error + (number \<times> number \<times> range_obj) list" where
  "throw_at n x i obj calls =
     (if js_eq i n then Inl (TypeError ''callback'') else record_call x i obj calls)"

declare while_loop.simps [code]

section \<open>Facts about the arithmetic\<close>

lemma norm_pow2: "norm (a * 2 ^ j) j = Fin a 0"
  by (induction j) simp_all

lemma rne_div_1 [simp]: "rne_div n 1 = n"
  by (simp add: rne_div_def)

lemma rne_div_exact: "0 < d \<Longrightarrow> rne_div (q * d) d = q"
  by (simp add: rne_div_def)

lemma flog2_int:
  assumes "0 < a"
  shows "flog2 a 1 = bitlen a - 1"
proof -
  from bitlen_bounds[OF assms] have lo: "2 ^ nat (bitlen a - 1) \<le> a" by simp
  from assms have "1 \<le> bitlen a" by (simp add: bitlen_alt_def)
  then show ?thesis using lo
    by (simp add: flog2_def Let_def bitlen_alt_def[of 1])
qed

lemma bitlen_le:
  assumes "0 < a" and "a < 2 ^ n"
  shows "bitlen a \<le> int n"
proof -
  from bitlen_bounds[OF assms(1)] have "(2::int) ^ nat (bitlen a - 1) \<le> a" by simp
  with assms(2) have "(2::int) ^ nat (bitlen a - 1) < 2 ^ n" by linarith
  then have "nat (bitlen a - 1) < n" by (simp add: power_strict_increasing_iff)
  then show ?thesis by linarith
qed

lemma round_frac_int:
  assumes "0 < a" and "a \<le> 2 ^ 53"
  shows "round_frac neg a 1 = Fin (if neg then - a else a) 0"
proof (cases "a = 2 ^ 53")
  case True
  have "bitlen a = 54" unfolding True
    using bitlen_pow2[of 1 53] by (simp add: bitlen_alt_def[of 1])
  then have fl: "flog2 a 1 = 53" using flog2_int[OF assms(1)] by simp
  have m: "rne_div a 2 = 2 ^ 52" unfolding True using rne_div_exact[of 2 "2 ^ 52"] by simp
  show ?thesis
    by (simp add: round_frac_def fl Let_def m) (simp add: True)
next
  case False
  with assms have lt: "a < 2 ^ 53" by simp
  have l1: "1 \<le> bitlen a" using assms(1) by (simp add: bitlen_alt_def)
  have l2: "bitlen a \<le> 53" using bitlen_le[OF assms(1) lt] by simp
  have fl: "flog2 a 1 = bitlen a - 1" by (rule flog2_int[OF assms(1)])
  show ?thesis
  proof (cases "bitlen a = 53")
    case True
    then show ?thesis using lt assms(1)
      by (simp add: round_frac_def fl Let_def)
  next
    case False
    with l2 have t: "bitlen a - 1 - 52 < 0" by simp
    have mx: "max (bitlen a - 1) (- 1022) = bitlen a - 1" using l1 by simp
    have n0: "a * 2 ^ nat (- (bitlen a - 1 - 52)) \<noteq> 0" using assms(1) by simp
    show ?thesis using t n0 assms(1)
      by (simp add: round_frac_def fl Let_def mx norm_pow2 norm_pow2[of "- a", simplified])
  qed
qed

lemma js_add_int:
  assumes "\<bar>a + b\<bar> \<le> 2 ^ 53"
  shows "js_add (Fin a 0) (Fin b 0) = Fin (a + b) 0"
  using assms round_frac_int[of "\<bar>a + b\<bar>" "a + b < 0"]
  by (auto simp: Let_def)

lemma iter_add_index:
  "0 \<le> n \<Longrightarrow> n + int k \<le> 2 ^ 53 \<Longrightarrow> iter_add (Fin 1 0) k (Fin n 0) = Fin (n + int k) 0"
proof (induction k arbitrary: n)
  case 0
  then show ?case by simp
next
  case (Suc k)
  have "js_add (Fin n 0) (Fin 1 0) = Fin (n + 1) 0"
    using Suc.prems by (intro js_add_int) simp
  then show ?case using Suc.IH[of "n + 1"] Suc.prems by (simp add: algebra_simps)
qed

lemma iter_add_int:
  assumes "\<bar>a\<bar> \<le> 2 ^ 53" and "\<bar>a + int j * s\<bar> \<le> 2 ^ 53"
  shows "iter_add (Fin s 0) j (Fin a 0) = Fin (a + int j * s) 0"
  using assms
proof (induction j arbitrary: a)
  case 0
  then show ?case by simp
next
  case (Suc j)
  have e: "a + int (Suc j) * s = a + s + int j * s" by (simp add: algebra_simps)
  from Suc.prems have b: "- (2 ^ 53) \<le> a" "a \<le> 2 ^ 53"
    "- (2 ^ 53) \<le> a + s + int j * s" "a + s + int j * s \<le> 2 ^ 53"
    unfolding e by linarith+
  have between: "\<bar>a + s\<bar> \<le> 2 ^ 53"
  proof (cases "0 \<le> s")
    case True
    then have "0 \<le> int j * s" by simp
    with True b show ?thesis by linarith
  next
    case False
    then have "int j * s \<le> 0" by (simp add: mult_nonneg_nonpos)
    with False b show ?thesis by linarith
  qed
  then have st: "js_add (Fin a 0) (Fin s 0) = Fin (a + s) 0" by (rule js_add_int)
  have "iter_add (Fin s 0) j (Fin (a + s) 0) = Fin (a + s + int j * s) 0"
    using between Suc.prems(2) unfolding e by (intro Suc.IH)
  then show ?case by (simp only: iter_add.simps st e)
qed

lemma num_of_int_small: "\<bar>n\<bar> \<le> 2 ^ 53 \<Longrightarrow> num_of_int n = Fin n 0"
  using round_frac_int[of "\<bar>n\<bar>" "n < 0"] by (auto simp: num_of_int_def)

lemma js_mul_int:
  assumes "\<bar>a * b\<bar> \<le> 2 ^ 53"
  shows "js_mul (Fin a 0) (Fin b 0) = (if a * b = 0 then zero_of ((a < 0) \<noteq> (b < 0)) else Fin (a * b) 0)"
proof (cases "a * b = 0")
  case True
  then show ?thesis
    by (auto simp: js_mul_def isNaN_def is_inf_def is_zero_def)
next
  case False
  then have ab: "a \<noteq> 0" "b \<noteq> 0" by simp_all
  have p: "0 < \<bar>a\<bar> * \<bar>b\<bar>" using ab by simp
  have q: "\<bar>a\<bar> * \<bar>b\<bar> \<le> 2 ^ 53" using assms(1) by (simp add: abs_mult)
  have s: "((a < 0) = (\<not> b < 0)) = (a * b < 0)"
    using ab by (auto simp: mult_less_0_iff)
  have v: "(if a * b < 0 then - (\<bar>a\<bar> * \<bar>b\<bar>) else \<bar>a\<bar> * \<bar>b\<bar>) = a * b"
    by (simp add: abs_mult[symmetric])
  show ?thesis
    using round_frac_int[OF p q, of "a * b < 0"] ab
    by (simp add: js_mul_def isNaN_def is_inf_def is_zero_def s v)
qed

lemma closed_form_int:
  assumes "\<bar>a\<bar> \<le> 2 ^ 53" and "int j \<le> 2 ^ 53" and "\<bar>int j * d\<bar> \<le> 2 ^ 53"
    and "\<bar>a + int j * d\<bar> \<le> 2 ^ 53"
  shows "closed_form (Fin a 0) (Fin d 0) j = Fin (a + int j * d) 0"
proof -
  have n: "num_of_int (int j) = Fin (int j) 0"
    using assms(2) by (intro num_of_int_small) simp
  show ?thesis
  proof (cases "int j * d = 0")
    case True
    then have "js_mul (Fin (int j) 0) (Fin d 0) = Fin 0 0 \<or>
        js_mul (Fin (int j) 0) (Fin d 0) = NegZero"
      using js_mul_int[OF assms(3)] by (simp add: zero_of_def)
    then show ?thesis using True assms(1) js_add_int[of a 0]
      by (auto simp: closed_form_def n)
  next
    case False
    then have m: "js_mul (Fin (int j) 0) (Fin d 0) = Fin (int j * d) 0"
      using js_mul_int[OF assms(3)] by simp
    show ?thesis using js_add_int[OF assms(4)] by (simp add: closed_form_def n m)
  qed
qed

lemma rne_div_ge: "n div d \<le> rne_div n d"
  by (simp add: rne_div_def Let_def)

lemma pow2_less_D: "(2::int) ^ m < 2 ^ n \<Longrightarrow> m < n"
  by simp

lemma round_frac_overflow:
  assumes "2 ^ 1024 \<le> a"
  shows "round_frac neg a 1 = inf_of neg"
proof -
  have "(0::int) < 2 ^ 1024" by (rule zero_less_power) simp
  with assms have pos: "0 < a" by linarith
  from bitlen_bounds[OF pos] have lo: "2 ^ nat (bitlen a - 1) \<le> a" and hi: "a < 2 ^ nat (bitlen a)"
    by simp_all
  from assms hi have "(2::int) ^ 1024 < 2 ^ nat (bitlen a)" by (rule le_less_trans)
  then have "1024 < nat (bitlen a)" by (rule pow2_less_D)
  then have L: "1025 \<le> bitlen a" by linarith
  define t where "t = nat (bitlen a - 53)"
  have tb: "bitlen a - 1 - 52 = int t" "nat (bitlen a - 1) = 52 + t"
    using L by (simp_all add: t_def)
  have fl: "flog2 a 1 = bitlen a - 1" by (rule flog2_int[OF pos])
  have ge: "(2::int) ^ 52 * 2 ^ t \<le> a" using lo unfolding tb by (simp only: power_add)
  have "(2::int) ^ 52 * 2 ^ t div 2 ^ t \<le> a div 2 ^ t"
    using ge by (rule zdiv_mono1) simp
  then have "(2::int) ^ 52 \<le> a div 2 ^ t" by simp
  also have "\<dots> \<le> rne_div a (2 ^ t)" by (rule rne_div_ge)
  finally have m: "(2::int) ^ 52 \<le> rne_div a (2 ^ t)" .
  have "(2::int) ^ 1024 \<le> 2 ^ (52 + t)"
    by (rule power_increasing) (use L in \<open>simp_all add: t_def\<close>)
  also have "\<dots> = 2 ^ 52 * 2 ^ t" by (simp only: power_add)
  also have "\<dots> \<le> rne_div a (2 ^ t) * 2 ^ t"
    using m by (rule mult_right_mono) simp
  finally have big: "(2::int) ^ 1024 \<le> rne_div a (2 ^ t) * 2 ^ t" .
  have mx: "max (bitlen a - 1) (- 1022) - 52 = int t" using L by (simp add: t_def)
  show ?thesis
    unfolding round_frac_def fl Let_def mx using big by simp
qed

lemma pow10_ge_pow2:
  assumes "342 \<le> n"
  shows "(2::int) ^ 1024 \<le> 10 ^ n"
proof -
  have "(2::int) ^ 1024 \<le> 2 ^ (3 * n)"
    by (rule power_increasing) (use assms in simp_all)
  also have "\<dots> = (8::int) ^ n"
    by (simp add: power_mult)
  also have "\<dots> \<le> 10 ^ n"
    by (rule power_mono) simp_all
  finally show ?thesis .
qed

lemma decimal_overflow:
  assumes "0 < d" and "342 \<le> ex"
  shows "decimal_value neg d ex = inf_of neg"
proof -
  have "(2::int) ^ 1024 \<le> 10 ^ nat ex"
    by (rule pow10_ge_pow2) (use assms(2) in linarith)
  also have "\<dots> \<le> d * 10 ^ nat ex"
    using assms(1) by (simp add: mult_le_cancel_right1)
  finally have "round_frac neg (d * 10 ^ nat ex) 1 = inf_of neg"
    by (rule round_frac_overflow)
  then show ?thesis using assms by (simp add: decimal_value_def)
qed

section \<open>Construction\<close>

lemma Range_numbers:
  "Range True (Num a) (Num b) (Num c) = Inr \<lparr>start = a, step = b, end' = c\<rparr>"
  by (simp add: Range_def)

text \<open>
  Claim C6. Constructing a Range with a provided (neither null nor undefined) start, step
  or end argument that is not a number raises a TypeError whose message names an offending
  parameter (the first of start, end, step that offends); with arguments that are all
  numbers or omitted, construction succeeds, the fields are the arguments, and an omitted
  argument defaults to start = 0, step = 1, end = 0.
\<close>

theorem Range_constructor:
  "(not_null a \<and> \<not> isNumber a \<longrightarrow>
      Range True a b c = Inl (TypeError ''Parameter start must be a number'')) \<and>
   (\<not> (not_null a \<and> \<not> isNumber a) \<and> not_null c \<and> \<not> isNumber c \<longrightarrow>
      Range True a b c = Inl (TypeError ''Parameter end must be a number'')) \<and>
   (\<not> (not_null a \<and> \<not> isNumber a) \<and> \<not> (not_null c \<and> \<not> isNumber c) \<and>
    not_null b \<and> \<not> isNumber b \<longrightarrow>
      Range True a b c = Inl (TypeError ''Parameter step must be a number'')) \<and>
   (\<not> (not_null a \<and> \<not> isNumber a) \<and> \<not> (not_null b \<and> \<not> isNumber b) \<and>
    \<not> (not_null c \<and> \<not> isNumber c) \<longrightarrow>
      Range True a b c =
        Inr \<lparr> start = (case a of Num n \<Rightarrow> n | _ \<Rightarrow> Fin 0 0),
              step = (case b of Num n \<Rightarrow> n | _ \<Rightarrow> Fin 1 0),
              end' = (case c of Num n \<Rightarrow> n | _ \<Rightarrow> Fin 0 0) \<rparr>)"
  by (cases a; cases b; cases c) (simp_all add: Range_def)

theorem Range_constructor_witness:
  "Range True (Str (ascii ''2'')) Undefined Undefined =
     Inl (TypeError ''Parameter start must be a number'') \<and>
   Range True (Num (Fin 2 0)) Null (Boolean True) =
     Inl (TypeError ''Parameter end must be a number'') \<and>
   Range True Undefined (Str []) Null =
     Inl (TypeError ''Parameter step must be a number'') \<and>
   Range True (Num (Fin 2 0)) Undefined (Num (Fin 5 0)) =
     Inr \<lparr>start = Fin 2 0, step = Fin 1 0, end' = Fin 5 0\<rparr> \<and>
   Range True Undefined Undefined Undefined =
     Inr \<lparr>start = Fin 0 0, step = Fin 1 0, end' = Fin 0 0\<rparr>"
  using Range_constructor [of "Str (ascii ''2'')" Undefined Undefined]
    Range_constructor [of "Num (Fin 2 0)" Null "Boolean True"]
    Range_constructor [of Undefined "Str []" Null]
    Range_constructor [of "Num (Fin 2 0)" Undefined "Num (Fin 5 0)"]
    Range_constructor [of Undefined Undefined Undefined]
  by simp

section \<open>Parsing\<close>

lemma parse_non_string: "\<not> isString v \<Longrightarrow> parse v = Inr None"
  by (cases v) (simp_all add: parse_def)

lemma parse_two:
  "split 58 s = [t0, t1] \<Longrightarrow> \<not> isNaN (StringToNumber t0) \<Longrightarrow> \<not> isNaN (StringToNumber t1) \<Longrightarrow>
   parse (Str s) =
     Inr (Some \<lparr>start = StringToNumber t0, step = Fin 1 0, end' = StringToNumber t1\<rparr>)"
  by (simp add: parse_def Range_numbers)

lemma parse_three:
  "split 58 s = [t0, t1, t2] \<Longrightarrow> \<not> isNaN (StringToNumber t0) \<Longrightarrow>
   \<not> isNaN (StringToNumber t1) \<Longrightarrow> \<not> isNaN (StringToNumber t2) \<Longrightarrow>
   parse (Str s) =
     Inr (Some \<lparr>start = StringToNumber t0, step = StringToNumber t1,
                 end' = StringToNumber t2\<rparr>)"
  by (simp add: parse_def Range_numbers)

lemma parse_other_count:
  "length (split 58 s) \<noteq> 2 \<Longrightarrow> length (split 58 s) \<noteq> 3 \<Longrightarrow> parse (Str s) = Inr None"
  by (auto simp add: parse_def Let_def split: list.splits)

lemma parse_invalid:
  "list_ex (\<lambda>t. isNaN (StringToNumber t)) (split 58 s) \<Longrightarrow> parse (Str s) = Inr None"
  by (simp add: parse_def Let_def list_ex_iff)

lemma parse_valid_not_null:
  assumes "\<not> list_ex (\<lambda>t. isNaN (StringToNumber t)) (split 58 s)"
    and "length (split 58 s) = 2 \<or> length (split 58 s) = 3"
  shows "parse (Str s) \<noteq> Inr None"
proof -
  from assms(2) consider t0 t1 where "split 58 s = [t0, t1]"
    | t0 t1 t2 where "split 58 s = [t0, t1, t2]"
    by (cases "split 58 s" rule: list.exhaust; simp)
       (metis One_nat_def Suc_length_conv length_0_conv numeral_2_eq_2 numeral_3_eq_3)
  then show ?thesis
  proof cases
    case 1
    with assms(1) show ?thesis by (simp add: parse_two)
  next
    case 2
    with assms(1) show ?thesis by (simp add: parse_three)
  qed
qed

text \<open>
  Claim C4. \<^verbatim>\<open>Range.parse\<close> returns null for every input that is not a string. A
  string is split on \<^verbatim>\<open>':'\<close> (code unit 58) into tokens, each converted with
  \<^verbatim>\<open>Number\<close>: exactly two tokens, both numeric (not NaN), yield the Range of the first
  number, 1 and the second number; exactly three numeric tokens yield the Range of the
  three numbers; any other count of tokens yields null.
\<close>

theorem parse_tokens:
  "(\<not> isString v \<longrightarrow> parse v = Inr None) \<and>
   (split 58 s = [t0, t1] \<and> \<not> isNaN (Number (Str t0)) \<and> \<not> isNaN (Number (Str t1)) \<longrightarrow>
      parse (Str s) = Inr (Some \<lparr>start = Number (Str t0), step = Fin 1 0,
                                  end' = Number (Str t1)\<rparr>)) \<and>
   (split 58 s = [t0, t1, t2] \<and> \<not> isNaN (Number (Str t0)) \<and> \<not> isNaN (Number (Str t1)) \<and>
    \<not> isNaN (Number (Str t2)) \<longrightarrow>
      parse (Str s) = Inr (Some \<lparr>start = Number (Str t0), step = Number (Str t1),
                                  end' = Number (Str t2)\<rparr>)) \<and>
   (length (split 58 s) \<noteq> 2 \<and> length (split 58 s) \<noteq> 3 \<longrightarrow> parse (Str s) = Inr None)"
  using parse_non_string [of v] parse_two [of s t0 t1] parse_three [of s t0 t1 t2]
    parse_other_count [of s]
  by simp

theorem parse_tokens_witness:
  "parse (Num (Fin 42 0)) = Inr None \<and>
   parse (Str (ascii ''2:5'')) = Inr (Some \<lparr>start = Fin 2 0, step = Fin 1 0, end' = Fin 5 0\<rparr>) \<and>
   parse (Str (ascii ''2:-1:-2'')) =
     Inr (Some \<lparr>start = Fin 2 0, step = Fin (- 1) 0, end' = Fin (- 2) 0\<rparr>) \<and>
   parse (Str (ascii ''1:2:3:4'')) = Inr None \<and>
   parse (Str (ascii ''7'')) = Inr None"
proof -
  have s2: "split 58 (ascii ''2:5'') = [ascii ''2'', ascii ''5'']"
    and s3: "split 58 (ascii ''2:-1:-2'') = [ascii ''2'', ascii ''-1'', ascii ''-2'']"
    and s4: "length (split 58 (ascii ''1:2:3:4'')) = 4"
    and s1: "length (split 58 (ascii ''7'')) = 1"
    by code_simp+
  have n: "StringToNumber (ascii ''2'') = Fin 2 0" "StringToNumber (ascii ''5'') = Fin 5 0"
    "StringToNumber (ascii ''-1'') = Fin (- 1) 0" "StringToNumber (ascii ''-2'') = Fin (- 2) 0"
    by code_simp+
  show ?thesis
    using parse_tokens [of "Num (Fin 42 0)" "ascii ''2:5''" "ascii ''2''" "ascii ''5''" "[]"]
      parse_tokens [of Null "ascii ''2:-1:-2''" "ascii ''2''" "ascii ''-1''" "ascii ''-2''"]
      parse_tokens [of Null "ascii ''1:2:3:4''" "[]" "[]" "[]"]
      parse_tokens [of Null "ascii ''7''" "[]" "[]" "[]"]
    by (simp add: s1 s2 s3 s4 n isNaN_def)
qed

lemma str1e999: "StringToNumber (ascii ''1e999'') = decimal_value False 1 999"
  by (simp add: StringToNumber_def ascii_def trim_def is_ws_def str_decimal_def is_digit_in_def
      radix_digit_def exponent_part_def digits_value_def Let_def)

text \<open>
  Claim C5, as the code has it. \<^verbatim>\<open>Range.parse\<close> tests the converted tokens with
  \<^verbatim>\<open>isNaN\<close> only: it returns null exactly when some token converts to NaN or the
  count of tokens is neither 2 nor 3. A token that converts to an infinity, such as
  \<^verbatim>\<open>Infinity\<close> or \<^verbatim>\<open>1e999\<close>, is numeric and becomes a field of the Range.
\<close>

theorem parse_null_iff:
  "(parse (Str s) = Inr None) =
     (list_ex (\<lambda>t. isNaN (Number (Str t))) (split 58 s) \<or>
      (length (split 58 s) \<noteq> 2 \<and> length (split 58 s) \<noteq> 3))"
  using parse_invalid [of s] parse_other_count [of s] parse_valid_not_null [of s]
  by auto

theorem parse_null_iff_witness:
  "parse (Str (ascii ''abc:5'')) = Inr None \<and>
   parse (Str (ascii ''0:Infinity'')) \<noteq> Inr None"
proof -
  have "list_ex (\<lambda>t. isNaN (Number (Str t))) (split 58 (ascii ''abc:5''))"
    and "\<not> list_ex (\<lambda>t. isNaN (Number (Str t))) (split 58 (ascii ''0:Infinity''))"
    and "length (split 58 (ascii ''0:Infinity'')) = 2"
    by code_simp+
  then show ?thesis
    using parse_null_iff [of "ascii ''abc:5''"] parse_null_iff [of "ascii ''0:Infinity''"]
    by simp
qed

theorem parse_infinity_counterexample:
  "Number (Str (ascii ''Infinity'')) = PInf \<and>
   parse (Str (ascii ''0:Infinity'')) =
     Inr (Some \<lparr>start = Fin 0 0, step = Fin 1 0, end' = PInf\<rparr>) \<and>
   Number (Str (ascii ''1e999'')) = PInf \<and>
   parse (Str (ascii ''0:1e999'')) =
     Inr (Some \<lparr>start = Fin 0 0, step = Fin 1 0, end' = PInf\<rparr>)"
proof -
  have inf: "StringToNumber (ascii ''Infinity'') = PInf"
    and zero: "StringToNumber (ascii ''0'') = Fin 0 0"
    and s1: "split 58 (ascii ''0:Infinity'') = [ascii ''0'', ascii ''Infinity'']"
    and s2: "split 58 (ascii ''0:1e999'') = [ascii ''0'', ascii ''1e999'']"
    by code_simp+
  have big: "StringToNumber (ascii ''1e999'') = PInf"
    using decimal_overflow [of 1 999 False] by (simp add: str1e999 inf_of_def)
  show ?thesis
    using parse_two [OF s1] parse_two [OF s2]
    by (simp add: inf zero big isNaN_def)
qed

lemma Number_empty: "Number (Str []) = Fin 0 0"
  by code_simp

text \<open>
  Claim C10, as the code has it. An empty token converts to the number 0. A string of
  exactly two or exactly three tokens, each of them empty or numeric (not NaN), parses
  to the Range of the converted tokens with 0 for each empty token (and the step 1 for
  two tokens): \<^verbatim>\<open>parse("2:")\<close> is the Range with start = 2, step = 1, end = 0,
  \<^verbatim>\<open>parse(":")\<close> the Range with start = 0, step = 1, end = 0. With any other count
  of tokens the result is null, empty tokens or not: the empty string is one empty
  token. So a string with an empty token parses exactly when it has two or three tokens
  and each token that is not empty is numeric.
\<close>

theorem parse_empty_tokens:
  "Number (Str []) = Fin 0 0 \<and>
   (split 58 s = [t0, t1] \<and> (t0 = [] \<or> \<not> isNaN (Number (Str t0))) \<and>
    (t1 = [] \<or> \<not> isNaN (Number (Str t1))) \<longrightarrow>
      parse (Str s) =
        Inr (Some \<lparr>start = (if t0 = [] then Fin 0 0 else Number (Str t0)), step = Fin 1 0,
                    end' = (if t1 = [] then Fin 0 0 else Number (Str t1))\<rparr>)) \<and>
   (split 58 s = [t0, t1, t2] \<and> (t0 = [] \<or> \<not> isNaN (Number (Str t0))) \<and>
    (t1 = [] \<or> \<not> isNaN (Number (Str t1))) \<and> (t2 = [] \<or> \<not> isNaN (Number (Str t2))) \<longrightarrow>
      parse (Str s) =
        Inr (Some \<lparr>start = (if t0 = [] then Fin 0 0 else Number (Str t0)),
                    step = (if t1 = [] then Fin 0 0 else Number (Str t1)),
                    end' = (if t2 = [] then Fin 0 0 else Number (Str t2))\<rparr>)) \<and>
   (length (split 58 s) \<noteq> 2 \<and> length (split 58 s) \<noteq> 3 \<longrightarrow> parse (Str s) = Inr None) \<and>
   ([] \<in> set (split 58 s) \<longrightarrow>
      (parse (Str s) \<noteq> Inr None) =
        ((length (split 58 s) = 2 \<or> length (split 58 s) = 3) \<and>
         (\<forall>t \<in> set (split 58 s). t \<noteq> [] \<longrightarrow> \<not> isNaN (Number (Str t)))))"
proof -
  have e: "StringToNumber [] = Fin 0 0"
    using Number_empty by simp
  have v: "t = [] \<or> \<not> isNaN (Number (Str t)) \<Longrightarrow> \<not> isNaN (StringToNumber t)" for t
    using e by (auto simp: isNaN_def)
  have ex: "list_ex (\<lambda>t. isNaN (StringToNumber t)) (split 58 s) =
      (\<not> (\<forall>t \<in> set (split 58 s). t \<noteq> [] \<longrightarrow> \<not> isNaN (Number (Str t))))"
  proof -
    have "(\<exists>t \<in> set (split 58 s). StringToNumber t = NaN) =
        (\<exists>t \<in> set (split 58 s). t \<noteq> [] \<and> StringToNumber t = NaN)"
    proof (intro iffI)
      assume "\<exists>t \<in> set (split 58 s). StringToNumber t = NaN"
      then obtain t where t: "t \<in> set (split 58 s)" "StringToNumber t = NaN" by blast
      with e have "t \<noteq> []" by auto
      with t show "\<exists>t \<in> set (split 58 s). t \<noteq> [] \<and> StringToNumber t = NaN" by blast
    qed blast
    then show ?thesis by (simp add: list_ex_iff isNaN_def)
  qed
  have iff: "(parse (Str s) \<noteq> Inr None) =
        ((length (split 58 s) = 2 \<or> length (split 58 s) = 3) \<and>
         (\<forall>t \<in> set (split 58 s). t \<noteq> [] \<longrightarrow> \<not> isNaN (Number (Str t))))"
    using parse_invalid [of s] parse_other_count [of s] parse_valid_not_null [of s]
    unfolding ex by blast
  show ?thesis
    using parse_two [of s t0 t1] parse_three [of s t0 t1 t2] parse_other_count [of s]
      v [of t0] v [of t1] v [of t2] e iff
    by auto
qed

theorem parse_empty_tokens_witness:
  "parse (Str (ascii ''2:'')) = Inr (Some \<lparr>start = Fin 2 0, step = Fin 1 0, end' = Fin 0 0\<rparr>) \<and>
   parse (Str (ascii '':'')) = Inr (Some \<lparr>start = Fin 0 0, step = Fin 1 0, end' = Fin 0 0\<rparr>) \<and>
   parse (Str (ascii ''0::5'')) =
     Inr (Some \<lparr>start = Fin 0 0, step = Fin 0 0, end' = Fin 5 0\<rparr>) \<and>
   parse (Str (ascii ''2:3:4:'')) = Inr None \<and>
   parse (Str (ascii ''::'')) \<noteq> Inr None"
proof -
  have s1: "split 58 (ascii ''2:'') = [ascii ''2'', []]"
    and s2: "split 58 (ascii '':'') = [[], []]"
    and s3: "split 58 (ascii ''0::5'') = [ascii ''0'', [], ascii ''5'']"
    and s4: "length (split 58 (ascii ''2:3:4:'')) = 4"
    and s5: "split 58 (ascii ''::'') = [[], [], []]"
    by code_simp+
  have n: "StringToNumber (ascii ''2'') = Fin 2 0" "StringToNumber (ascii ''0'') = Fin 0 0"
    "StringToNumber (ascii ''5'') = Fin 5 0"
    and a: "ascii ''2'' \<noteq> []" "ascii ''0'' \<noteq> []" "ascii ''5'' \<noteq> []"
    by code_simp+
  show ?thesis
    using parse_empty_tokens [of "ascii ''2:''" "ascii ''2''" "[]" "[]"]
      parse_empty_tokens [of "ascii '':''" "[]" "[]" "[]"]
      parse_empty_tokens [of "ascii ''0::5''" "ascii ''0''" "[]" "ascii ''5''"]
      parse_empty_tokens [of "ascii ''2:3:4:''" "[]" "[]" "[]"]
      parse_empty_tokens [of "ascii ''::''" "[]" "[]" "[]"]
    by (simp add: s1 s2 s3 s4 s5 n a isNaN_def)
qed

theorem parse_empty_string_counterexample:
  "split 58 [] = [[]] \<and> parse (Str []) = Inr None \<and>
   split 58 (ascii ''::::'') = [[], [], [], [], []] \<and>
   parse (Str (ascii ''::::'')) = Inr None \<and>
   split 58 (ascii ''a:'') = [ascii ''a'', []] \<and>
   parse (Str (ascii ''a:'')) = Inr None"
  by code_simp

section \<open>Size\<close>

lemma js_eq_zero_iff: "js_eq x (Fin 0 0) = is_zero x"
  by (cases x) (auto simp: js_eq_def is_zero_def isNaN_def is_inf_def)

lemma sign_of_zero: "is_zero x \<Longrightarrow> sign x = Fin 0 0"
  by (cases x) (auto simp: sign_def js_gt_def js_lt_def is_zero_def isNaN_def is_inf_def)

lemma sign_of_NaN: "sign NaN = Fin 0 0"
  by (simp add: sign_def js_gt_def js_lt_def isNaN_def)

lemma pow2_cross:
  fixes m1 m2 :: int
  assumes "m1 * 2 ^ k2 = m2 * 2 ^ k1"
  shows "m1 * 2 ^ (max k1 k2 - k1) = m2 * 2 ^ (max k1 k2 - k2)"
proof -
  have "m1 * 2 ^ (max k1 k2 - k1) * 2 ^ (k1 + k2) = m1 * 2 ^ k2 * 2 ^ max k1 k2"
    by (simp add: power_add[symmetric] max_def)
  also have "\<dots> = m2 * 2 ^ k1 * 2 ^ max k1 k2"
    using assms by simp
  also have "\<dots> = m2 * 2 ^ (max k1 k2 - k2) * 2 ^ (k1 + k2)"
    by (simp add: power_add[symmetric] max_def)
  finally show ?thesis by simp
qed

lemma js_sub_eq:
  assumes "js_eq x y"
  shows "isNaN (js_sub y x) \<or> is_zero (js_sub y x)"
proof (cases x)
  case (Fin m1 k1)
  note x = this
  show ?thesis
  proof (cases y)
    case (Fin m2 k2)
    from assms x Fin have eq: "m1 * 2 ^ k2 = m2 * 2 ^ k1"
      by (simp add: js_eq_def isNaN_def)
    have "m2 * 2 ^ (max k2 k1 - k2) = m1 * 2 ^ (max k2 k1 - k1)"
      using pow2_cross[of m2 k1 m1 k2] eq by (simp add: max.commute)
    then show ?thesis using x Fin
      by (auto simp: js_sub_def Let_def is_zero_def isNaN_def is_inf_def)
  qed (use assms x in \<open>auto simp: js_eq_def js_sub_def is_zero_def isNaN_def is_inf_def\<close>)
qed (use assms in \<open>cases y; auto simp: js_eq_def js_sub_def is_zero_def isNaN_def is_inf_def\<close>)+

lemma js_div_by_zero:
  "is_zero y \<Longrightarrow> isNaN x \<or> is_zero x \<Longrightarrow> js_div x y = NaN"
  by (auto simp: js_div_def is_zero_def)

lemma size_zero_step:
  assumes "js_eq (step r) (Fin 0 0)" and "js_eq (start r) (end' r)"
  shows "size_range r = [Fin 0 0]"
proof -
  let ?d = "js_sub (end' r) (start r)"
  have z: "is_zero (step r)" using assms(1) by (simp add: js_eq_zero_iff)
  have d: "isNaN ?d \<or> is_zero ?d" using assms(2) by (rule js_sub_eq)
  then have sd: "sign ?d = Fin 0 0"
    by (auto simp: sign_of_zero sign_of_NaN isNaN_def)
  have ss: "sign (step r) = Fin 0 0" using z by (rule sign_of_zero)
  have "js_div ?d (step r) = NaN" using z d by (rule js_div_by_zero)
  then show ?thesis
    by (simp add: size_range_def Let_def sd ss js_eq_def isNaN_def)
qed

lemma sign_cases:
  "sign x = Fin 1 0 \<and> js_gt x (Fin 0 0) \<or> sign x = Fin (- 1) 0 \<and> js_lt x (Fin 0 0) \<or>
   sign x = Fin 0 0"
  by (simp add: sign_def)

text \<open>
  Claim C1, as the code has it. With \<open>diff = end - start\<close>, \<^verbatim>\<open>size()\<close> returns the
  one-element array \<open>[len]\<close> where: when \<open>sign(step) == sign(diff)\<close>, \<open>len\<close> is
  \<open>floor(diff / step) + 1\<close>, and 0 if that is NaN; otherwise \<open>len = 1\<close> when
  \<open>diff == 0\<close>, which happens for a step above or below 0 only; otherwise \<open>len = 0\<close>.
  A step of 0 with start equal to end is a case of the first branch: the signs agree,
  \<open>0 / 0\<close> is NaN and the length is 0, not 1.
\<close>

theorem size_range_cases:
  "let diff = js_sub (end' r) (start r); same = js_eq (sign (step r)) (sign diff) in
     (same \<longrightarrow>
        size_range r = [let len = js_add (js_floor (js_div diff (step r))) (Fin 1 0)
                        in if isNaN len then Fin 0 0 else len]) \<and>
     (\<not> same \<and> js_eq diff (Fin 0 0) \<longrightarrow>
        size_range r = [Fin 1 0] \<and> (js_gt (step r) (Fin 0 0) \<or> js_lt (step r) (Fin 0 0))) \<and>
     (\<not> same \<and> \<not> js_eq diff (Fin 0 0) \<longrightarrow> size_range r = [Fin 0 0]) \<and>
     (js_eq (step r) (Fin 0 0) \<and> js_eq (start r) (end' r) \<longrightarrow> size_range r = [Fin 0 0])"
proof -
  let ?diff = "js_sub (end' r) (start r)"
  have branch: "js_gt (step r) (Fin 0 0) \<or> js_lt (step r) (Fin 0 0)"
    if "\<not> js_eq (sign (step r)) (sign ?diff)" and "js_eq ?diff (Fin 0 0)"
  proof -
    from that(2) have "sign ?diff = Fin 0 0"
      by (simp add: js_eq_zero_iff sign_of_zero)
    with that(1) have "sign (step r) \<noteq> Fin 0 0"
      by (auto simp: js_eq_def isNaN_def)
    then show ?thesis using sign_cases[of "step r"] by auto
  qed
  show ?thesis
    using size_zero_step[of r] branch
    by (auto simp: size_range_def Let_def isNaN_def)
qed

theorem size_range_cases_witness:
  "size_range \<lparr>start = Fin 2 0, step = Fin 1 0, end' = Fin 5 0\<rparr> = [Fin 4 0] \<and>
   size_range \<lparr>start = Fin 3 0, step = Fin 1 0, end' = Fin 3 0\<rparr> = [Fin 1 0] \<and>
   size_range \<lparr>start = Fin 5 0, step = Fin 1 0, end' = Fin 2 0\<rparr> = [Fin 0 0] \<and>
   size_range \<lparr>start = Fin 3 0, step = Fin 0 0, end' = Fin 3 0\<rparr> = [Fin 0 0]"
proof -
  have a: "js_sub (Fin 5 0) (Fin 2 0) = Fin 3 0" "sign (Fin 1 0) = Fin 1 0" "sign (Fin 3 0) = Fin 1 0"
    "js_add (js_floor (js_div (Fin 3 0) (Fin 1 0))) (Fin 1 0) = Fin 4 0"
    and b: "js_sub (Fin 3 0) (Fin 3 0) = Fin 0 0" "sign (Fin 0 0) = Fin 0 0"
    and c: "js_sub (Fin 2 0) (Fin 5 0) = Fin (- 3) 0" "sign (Fin (- 3) 0) = Fin (- 1) 0"
    and d: "js_div (Fin 0 0) (Fin 0 0) = NaN"
    by code_simp+
  show ?thesis
    using size_range_cases [of "\<lparr>start = Fin 2 0, step = Fin 1 0, end' = Fin 5 0\<rparr>"]
      size_range_cases [of "\<lparr>start = Fin 3 0, step = Fin 1 0, end' = Fin 3 0\<rparr>"]
      size_range_cases [of "\<lparr>start = Fin 5 0, step = Fin 1 0, end' = Fin 2 0\<rparr>"]
      size_range_cases [of "\<lparr>start = Fin 3 0, step = Fin 0 0, end' = Fin 3 0\<rparr>"]
    by (simp add: a b c d Let_def js_eq_def isNaN_def)
qed

theorem size_zero_step_counterexample:
  "js_eq (step \<lparr>start = Fin 3 0, step = Fin 0 0, end' = Fin 3 0\<rparr>) (Fin 0 0) \<and>
   js_eq (start \<lparr>start = Fin 3 0, step = Fin 0 0, end' = Fin 3 0\<rparr>)
     (end' \<lparr>start = Fin 3 0, step = Fin 0 0, end' = Fin 3 0\<rparr>) \<and>
   size_range \<lparr>start = Fin 3 0, step = Fin 0 0, end' = Fin 3 0\<rparr> = [Fin 0 0] \<and>
   size_range \<lparr>start = Fin 3 0, step = Fin 0 0, end' = Fin 3 0\<rparr> \<noteq> [Fin 1 0]"
  by code_simp

section \<open>Traversal\<close>

lemma iter_add_Suc_right: "iter_add d (Suc k) x = js_add (iter_add d k x) d"
  by (induction k arbitrary: x) simp_all

lemmas wl_induct = while_loop.raw_induct[where xa = "(((((g, c), d), x), i), s)" for g c d x i s, simplified]

lemma calls_Suc:
  "map (\<lambda>j. (iter_add st j x, iter_add (Fin 1 0) j i)) [0..<Suc k] =
      (x, i) # map (\<lambda>j. (iter_add st j (js_add x st), iter_add (Fin 1 0) j (js_add i (Fin 1 0)))) [0..<k]"
  by (simp add: upt_conv_Cons map_Suc_upt[symmetric] del: upt_Suc)

lemma while_loop_terminates:
  assumes "\<not> guard (iter_add st k x)" and "\<And>j. j < k \<Longrightarrow> guard (iter_add st j x)"
  shows "while_loop guard cb st x i s =
         Some (run_calls cb (map (\<lambda>j. (iter_add st j x, iter_add (Fin 1 0) j i)) [0..<k]) s)"
  using assms
proof (induction k arbitrary: x i s)
  case 0
  then show ?case by (subst while_loop.simps) simp
next
  case (Suc k)
  have g: "guard x" using Suc.prems(2)[of 0] by simp
  show ?case
  proof (cases "cb x i s")
    case (Inl e)
    then show ?thesis using g unfolding calls_Suc by (subst while_loop.simps) simp
  next
    case (Inr s')
    have "while_loop guard cb st (js_add x st) (js_add i (Fin 1 0)) s' =
         Some (run_calls cb (map (\<lambda>j. (iter_add st j (js_add x st), iter_add (Fin 1 0) j (js_add i (Fin 1 0)))) [0..<k]) s')"
      using Suc.prems(1) Suc.prems(2)[of "Suc _"] by (intro Suc.IH) simp_all
    then show ?thesis using g Inr unfolding calls_Suc by (subst while_loop.simps) simp
  qed
qed

lemma while_loop_returns:
  assumes "while_loop guard cb st x i s = Some res"
    and tot: "\<And>x i s. \<exists>s'. cb x i s = Inr s'"
  shows "(\<exists>k. \<not> guard (iter_add st k x)) \<and> (\<exists>s'. res = Inr s')"
proof -
  have "(\<forall>x i s. \<exists>s'. cb x i s = Inr s') \<longrightarrow>
        (\<exists>k. \<not> guard (iter_add st k x)) \<and> (\<exists>s'. res = Inr s')"
  proof (rule wl_induct[where P = "\<lambda>g c d x i s y. (\<forall>x i s. \<exists>s'. c x i s = Inr s') \<longrightarrow>
        (\<exists>k. \<not> g (iter_add d k x)) \<and> (\<exists>s'. y = Inr s')", OF _ assms(1)], intro impI)
    fix wl :: "(number \<Rightarrow> bool) \<Rightarrow> (number \<Rightarrow> number \<Rightarrow> 'a \<Rightarrow> error + 'a)
      \<Rightarrow> number \<Rightarrow> number \<Rightarrow> number \<Rightarrow> 'a \<Rightarrow> (error + 'a) option"
    fix g c d x i s y
    assume IH: "\<And>g c d x i s y. wl g c d x i s = Some y \<Longrightarrow>
        (\<forall>x i s. \<exists>s'. c x i s = Inr s') \<longrightarrow> (\<exists>k. \<not> g (iter_add d k x)) \<and> (\<exists>s'. y = Inr s')"
      and eq: "(if g x then case c x i s of Inl e \<Rightarrow> Some (Inl e)
                 | Inr s' \<Rightarrow> wl g c d (js_add x d) (js_add i (Fin 1 0)) s'
               else Some (Inr s)) = Some y"
      and tot: "\<forall>x i s. \<exists>s'. c x i s = Inr s'"
    show "(\<exists>k. \<not> g (iter_add d k x)) \<and> (\<exists>s'. y = Inr s')"
    proof (cases "g x")
      case False
      then have "\<not> g (iter_add d 0 x)" by simp
      moreover from False eq have "y = Inr s" by simp
      ultimately show ?thesis by blast
    next
      case True
      from tot obtain s' where s': "c x i s = Inr s'" by blast
      with True eq have "wl g c d (js_add x d) (js_add i (Fin 1 0)) s' = Some y"
        by simp
      from IH[OF this] tot obtain k where
        "\<not> g (iter_add d k (js_add x d))" and r: "\<exists>s'. y = Inr s'" by blast
      then have "\<not> g (iter_add d (Suc k) x)" by simp
      with r show ?thesis by blast
    qed
  qed
  with tot show ?thesis by blast
qed

lemma while_loop_raises:
  assumes "while_loop guard cb st x i s = Some res" and "res = Inl e"
  shows "\<exists>x i s. cb x i s = Inl e"
proof -
  have "res = Inl e \<longrightarrow> (\<exists>x i s. cb x i s = Inl e)"
  proof (rule wl_induct[where P = "\<lambda>g c d x i s y. y = Inl e \<longrightarrow> (\<exists>x i s. c x i s = Inl e)",
        OF _ assms(1)], intro impI)
    fix wl :: "(number \<Rightarrow> bool) \<Rightarrow> (number \<Rightarrow> number \<Rightarrow> 'a \<Rightarrow> error + 'a)
      \<Rightarrow> number \<Rightarrow> number \<Rightarrow> number \<Rightarrow> 'a \<Rightarrow> (error + 'a) option"
    fix g c d x i s y
    assume IH: "\<And>g c d x i s y. wl g c d x i s = Some y \<Longrightarrow> y = Inl e \<longrightarrow> (\<exists>x i s. c x i s = Inl e)"
      and eq: "(if g x then case c x i s of Inl e \<Rightarrow> Some (Inl e)
                 | Inr s' \<Rightarrow> wl g c d (js_add x d) (js_add i (Fin 1 0)) s'
               else Some (Inr s)) = Some y"
      and y: "y = Inl e"
    show "\<exists>x i s. c x i s = Inl e"
    proof (cases "c x i s")
      case (Inl e')
      with eq y show ?thesis by (auto split: if_splits)
    next
      case (Inr s')
      with eq y have "wl g c d (js_add x d) (js_add i (Fin 1 0)) s' = Some y"
        by (auto split: if_splits)
      from IH[OF this] y show ?thesis by blast
    qed
  qed
  with assms(2) show ?thesis by simp
qed

lemma while_loop_diverges:
  assumes "\<And>k. guard (iter_add st k x)" and "\<And>x i s. \<exists>s'. cb x i s = Inr s'"
  shows "while_loop guard cb st x i s = None"
proof (cases "while_loop guard cb st x i s")
  case (Some res)
  from while_loop_returns[OF this assms(2)] assms(1) show ?thesis by blast
qed simp

lemma forEach_no_step:
  "\<not> js_gt (step r) (Fin 0 0) \<Longrightarrow> \<not> js_lt (step r) (Fin 0 0) \<Longrightarrow> forEach cb r s = Some (Inr s)"
  by (simp add: forEach_def)

lemma zero_not_gt_lt: "is_zero x \<Longrightarrow> \<not> js_gt x (Fin 0 0) \<and> \<not> js_lt x (Fin 0 0)"
  by (cases x) (auto simp: js_gt_def js_lt_def is_zero_def isNaN_def is_inf_def)

lemma NaN_not_gt_lt: "isNaN x \<Longrightarrow> \<not> js_gt x (Fin 0 0) \<and> \<not> js_lt x (Fin 0 0)"
  by (simp add: js_gt_def js_lt_def)

lemma forEach_up:
  assumes "js_gt (step r) (Fin 0 0)"
    and "\<not> js_le (iter_add (step r) k (start r)) (end' r)"
    and "\<And>j. j < k \<Longrightarrow> js_le (iter_add (step r) j (start r)) (end' r)"
  shows "forEach callback r s =
     Some (run_calls (\<lambda>x i. callback x i r)
       (map (\<lambda>j. (iter_add (step r) j (start r), iter_add (Fin 1 0) j (Fin 0 0))) [0..<k]) s)"
  using assms(1)
    while_loop_terminates[of "\<lambda>x. js_le x (end' r)" "step r" k "start r"
      "\<lambda>x i. callback x i r" "Fin 0 0" s, OF assms(2) assms(3)]
  by (simp add: forEach_def)

lemma gt_not_lt: "js_gt x (Fin 0 0) \<Longrightarrow> \<not> js_lt x (Fin 0 0)"
  by (cases x) (auto simp: js_gt_def js_lt_def isNaN_def)

lemma forEach_down:
  assumes "js_lt (step r) (Fin 0 0)"
    and "\<not> js_ge (iter_add (step r) k (start r)) (end' r)"
    and "\<And>j. j < k \<Longrightarrow> js_ge (iter_add (step r) j (start r)) (end' r)"
  shows "forEach callback r s =
     Some (run_calls (\<lambda>x i. callback x i r)
       (map (\<lambda>j. (iter_add (step r) j (start r), iter_add (Fin 1 0) j (Fin 0 0))) [0..<k]) s)"
proof -
  have "\<not> js_gt (step r) (Fin 0 0)" using assms(1) gt_not_lt by blast
  then show ?thesis
    using assms(1)
      while_loop_terminates[of "\<lambda>x. js_ge x (end' r)" "step r" k "start r"
        "\<lambda>x i. callback x i r" "Fin 0 0" s, OF assms(2) assms(3)]
    by (simp add: forEach_def)
qed

lemma while_loop_raises_at:
  assumes "\<And>j. j < k \<Longrightarrow> guard (iter_add st j x)"
    and "run_calls cb (map (\<lambda>j. (iter_add st j x, iter_add (Fin 1 0) j i)) [0..<k]) s = Inl e"
  shows "while_loop guard cb st x i s = Some (Inl e)"
  using assms
proof (induction k arbitrary: x i s)
  case 0
  then show ?case by simp
next
  case (Suc k)
  have g: "guard x" using Suc.prems(1)[of 0] by simp
  show ?case
  proof (cases "cb x i s")
    case (Inl e')
    then show ?thesis using g Suc.prems(2) unfolding calls_Suc
      by (subst while_loop.simps) simp
  next
    case (Inr s')
    have "while_loop guard cb st (js_add x st) (js_add i (Fin 1 0)) s' = Some (Inl e)"
      using Suc.prems(2) Suc.prems(1)[of "Suc _"] Inr unfolding calls_Suc
      by (intro Suc.IH) simp_all
    then show ?thesis using g Inr by (subst while_loop.simps) simp
  qed
qed

lemma while_loop_result:
  assumes "while_loop guard cb st x i s = Some res"
  shows "\<exists>k. (\<forall>j<k. guard (iter_add st j x)) \<and>
     res = run_calls cb (map (\<lambda>j. (iter_add st j x, iter_add (Fin 1 0) j i)) [0..<k]) s \<and>
     (\<not> guard (iter_add st k x) \<or> (\<exists>e. res = Inl e))"
proof (rule wl_induct[where P = "\<lambda>g c d x i s y. \<exists>k. (\<forall>j<k. g (iter_add d j x)) \<and>
     y = run_calls c (map (\<lambda>j. (iter_add d j x, iter_add (Fin 1 0) j i)) [0..<k]) s \<and>
     (\<not> g (iter_add d k x) \<or> (\<exists>e. y = Inl e))", OF _ assms])
  fix wl :: "(number \<Rightarrow> bool) \<Rightarrow> (number \<Rightarrow> number \<Rightarrow> 'a \<Rightarrow> error + 'a)
    \<Rightarrow> number \<Rightarrow> number \<Rightarrow> number \<Rightarrow> 'a \<Rightarrow> (error + 'a) option"
  fix g c d x i s y
  assume IH: "\<And>g c d x i s y. wl g c d x i s = Some y \<Longrightarrow>
      \<exists>k. (\<forall>j<k. g (iter_add d j x)) \<and>
        y = run_calls c (map (\<lambda>j. (iter_add d j x, iter_add (Fin 1 0) j i)) [0..<k]) s \<and>
        (\<not> g (iter_add d k x) \<or> (\<exists>e. y = Inl e))"
    and eq: "(if g x then case c x i s of Inl e \<Rightarrow> Some (Inl e)
               | Inr s' \<Rightarrow> wl g c d (js_add x d) (js_add i (Fin 1 0)) s'
             else Some (Inr s)) = Some y"
  let ?Q = "\<lambda>k. (\<forall>j<k. g (iter_add d j x)) \<and>
        y = run_calls c (map (\<lambda>j. (iter_add d j x, iter_add (Fin 1 0) j i)) [0..<k]) s \<and>
        (\<not> g (iter_add d k x) \<or> (\<exists>e. y = Inl e))"
  show "\<exists>k. ?Q k"
  proof (cases "g x")
    case False
    with eq have "?Q 0" by simp
    then show ?thesis ..
  next
    case True
    show ?thesis
    proof (cases "c x i s")
      case (Inl e)
      with True eq have y: "y = Inl e" by simp
      have "?Q (Suc 0)" using True Inl y by simp
      then show ?thesis ..
    next
      case (Inr s')
      with True eq have "wl g c d (js_add x d) (js_add i (Fin 1 0)) s' = Some y" by simp
      from IH[OF this] obtain k where k: "\<forall>j<k. g (iter_add d j (js_add x d))"
        "y = run_calls c (map (\<lambda>j. (iter_add d j (js_add x d),
            iter_add (Fin 1 0) j (js_add i (Fin 1 0)))) [0..<k]) s'"
        "\<not> g (iter_add d k (js_add x d)) \<or> (\<exists>e. y = Inl e)" by blast
      have a: "\<forall>j<Suc k. g (iter_add d j x)"
      proof (intro allI impI)
        fix j assume "j < Suc k"
        then show "g (iter_add d j x)" using True k(1) by (cases j) simp_all
      qed
      have b: "y = run_calls c (map (\<lambda>j. (iter_add d j x, iter_add (Fin 1 0) j i)) [0..<Suc k]) s"
        unfolding calls_Suc using k(2) Inr by simp
      have "?Q (Suc k)" using a b k(3) by simp
      then show ?thesis ..
    qed
  qed
qed

lemma while_loop_forever:
  assumes "\<And>j. guard (iter_add st j x)"
    and "\<And>k. \<exists>s'. run_calls cb (map (\<lambda>j. (iter_add st j x, iter_add (Fin 1 0) j i)) [0..<k]) s = Inr s'"
  shows "while_loop guard cb st x i s = None"
proof (cases "while_loop guard cb st x i s")
  case (Some res)
  from while_loop_result[OF this] obtain k where
    k: "res = run_calls cb (map (\<lambda>j. (iter_add st j x, iter_add (Fin 1 0) j i)) [0..<k]) s"
    "\<not> guard (iter_add st k x) \<or> (\<exists>e. res = Inl e)" by blast
  from assms(2)[of k] k(1) obtain s' where "res = Inr s'" by auto
  with k(2) assms(1) show ?thesis by auto
qed simp

lemma forEach_up_raises:
  assumes "js_gt (step r) (Fin 0 0)"
    and "\<And>j. j < k \<Longrightarrow> js_le (iter_add (step r) j (start r)) (end' r)"
    and "run_calls (\<lambda>x i. callback x i r)
       (map (\<lambda>j. (iter_add (step r) j (start r), iter_add (Fin 1 0) j (Fin 0 0))) [0..<k]) s = Inl e"
  shows "forEach callback r s = Some (Inl e)"
  using assms(1)
    while_loop_raises_at[of k "\<lambda>x. js_le x (end' r)" "step r" "start r"
      "\<lambda>x i. callback x i r" "Fin 0 0" s e, OF assms(2) assms(3)]
  by (simp add: forEach_def)

lemma forEach_down_raises:
  assumes "js_lt (step r) (Fin 0 0)"
    and "\<And>j. j < k \<Longrightarrow> js_ge (iter_add (step r) j (start r)) (end' r)"
    and "run_calls (\<lambda>x i. callback x i r)
       (map (\<lambda>j. (iter_add (step r) j (start r), iter_add (Fin 1 0) j (Fin 0 0))) [0..<k]) s = Inl e"
  shows "forEach callback r s = Some (Inl e)"
proof -
  have "\<not> js_gt (step r) (Fin 0 0)" using assms(1) gt_not_lt by blast
  then show ?thesis
    using assms(1)
      while_loop_raises_at[of k "\<lambda>x. js_ge x (end' r)" "step r" "start r"
        "\<lambda>x i. callback x i r" "Fin 0 0" s e, OF assms(2) assms(3)]
    by (simp add: forEach_def)
qed

lemma forEach_up_forever:
  assumes "js_gt (step r) (Fin 0 0)"
    and "\<And>j. js_le (iter_add (step r) j (start r)) (end' r)"
    and "\<And>k. \<exists>s'. run_calls (\<lambda>x i. callback x i r)
       (map (\<lambda>j. (iter_add (step r) j (start r), iter_add (Fin 1 0) j (Fin 0 0))) [0..<k]) s = Inr s'"
  shows "forEach callback r s = None"
  using assms(1)
    while_loop_forever[of "\<lambda>x. js_le x (end' r)" "step r" "start r"
      "\<lambda>x i. callback x i r" "Fin 0 0" s, OF assms(2) assms(3)]
  by (simp add: forEach_def)

lemma forEach_down_forever:
  assumes "js_lt (step r) (Fin 0 0)"
    and "\<And>j. js_ge (iter_add (step r) j (start r)) (end' r)"
    and "\<And>k. \<exists>s'. run_calls (\<lambda>x i. callback x i r)
       (map (\<lambda>j. (iter_add (step r) j (start r), iter_add (Fin 1 0) j (Fin 0 0))) [0..<k]) s = Inr s'"
  shows "forEach callback r s = None"
proof -
  have "\<not> js_gt (step r) (Fin 0 0)" using assms(1) gt_not_lt by blast
  then show ?thesis
    using assms(1)
      while_loop_forever[of "\<lambda>x. js_ge x (end' r)" "step r" "start r"
        "\<lambda>x i. callback x i r" "Fin 0 0" s, OF assms(2) assms(3)]
    by (simp add: forEach_def)
qed

lemma norm_not_NaN: "norm m k \<noteq> NaN"
  by (induction m k rule: norm.induct) simp_all

lemma round_frac_not_NaN: "round_frac neg a b \<noteq> NaN"
  by (simp add: round_frac_def Let_def inf_of_def zero_of_def norm_not_NaN)

lemma js_add_one_not_NaN: "x \<noteq> NaN \<Longrightarrow> js_add x (Fin 1 0) \<noteq> NaN"
  by (cases x) (simp_all add: Let_def round_frac_not_NaN)

lemma iter_add_one_not_NaN: "x \<noteq> NaN \<Longrightarrow> iter_add (Fin 1 0) k x \<noteq> NaN"
  by (induction k arbitrary: x) (simp_all add: js_add_one_not_NaN)

lemma js_le_PInf: "js_le x PInf = (x \<noteq> NaN)"
  by (cases x) (simp_all add: js_le_def isNaN_def)

lemma iter_add_fixed: "js_add x d = x \<Longrightarrow> iter_add d k x = x"
  by (induction k) simp_all

lemma js_add_Fin_not_NaN: "x \<noteq> NaN \<Longrightarrow> js_add x (Fin m k) \<noteq> NaN"
  by (cases x) (simp_all add: Let_def round_frac_not_NaN)

lemma iter_add_Fin_not_NaN: "x \<noteq> NaN \<Longrightarrow> iter_add (Fin m k) j x \<noteq> NaN"
  by (induction j arbitrary: x) (simp_all add: js_add_Fin_not_NaN)

lemma js_ge_NInf: "js_ge x NInf = (x \<noteq> NaN)"
  by (cases x) (simp_all add: js_ge_def js_le_def isNaN_def)

lemma run_calls_total:
  assumes "\<And>x i s. \<exists>s'. cb x i s = Inr s'"
  shows "\<exists>s'. run_calls cb calls s = Inr s'"
proof (induction calls arbitrary: s)
  case Nil
  then show ?case by simp
next
  case (Cons c calls)
  obtain x i where c: "c = (x, i)" by (cases c)
  from assms obtain s1 where "cb x i s = Inr s1" by blast
  with Cons[of s1] c show ?case by simp
qed

text \<open>
  Claim C2, as the code has it. \<^verbatim>\<open>forEach(callback)\<close> invokes
  \<^verbatim>\<open>callback(x, i, rangeInstance)\<close> on the values \<open>start\<close>, \<open>start + step\<close>,
  \<open>start + step + step\<close>, ..., each the previous one after \<^verbatim>\<open>x += step\<close> (the
  \<open>j\<close>-th is \<open>iter_add step j start\<close>), with the indices 0, 1, 2, ..., each the previous
  one after \<^verbatim>\<open>i++\<close>, while \<open>x <= end\<close> when \<open>step > 0\<close> and while \<open>x >= end\<close> when
  \<open>step < 0\<close>. With \<open>run k\<close> the outcome of the first \<open>k\<close> invocations in order:
  when the \<open>k\<close>-th value is the first to fail the comparison, \<^verbatim>\<open>forEach\<close> returns
  \<open>run k\<close>; when the first \<open>k\<close> values pass the comparison and the callback raises
  among the first \<open>k\<close> invocations, \<^verbatim>\<open>forEach\<close> raises that exception, whether or not
  a later value fails the comparison; when every value passes the comparison and the
  callback never raises, \<^verbatim>\<open>forEach\<close> does not return. With \<open>step == 0\<close>, or a
  step that is NaN, there is no invocation, whatever start and end are. The \<open>j\<close>-th index is the integer \<open>j\<close> up to
  \<open>2^53\<close>. The \<open>j\<close>-th value is the closed form \<open>start + j * step\<close> of binary64
  arithmetic when start, step and the values are integers up to \<open>2^53\<close>, where every
  operation is exact; it need not be on rounded values.
\<close>

theorem forEach_invocations:
  "let calls = (\<lambda>k. map (\<lambda>j. (iter_add (step r) j (start r), iter_add (Fin 1 0) j (Fin 0 0)))
                        [0..<k]);
       run = (\<lambda>k. run_calls (\<lambda>x i. callback x i r) (calls k) s)
   in
   (js_gt (step r) (Fin 0 0) \<and>
    (\<forall>j<k. js_le (iter_add (step r) j (start r)) (end' r)) \<and>
    \<not> js_le (iter_add (step r) k (start r)) (end' r) \<longrightarrow>
      forEach callback r s = Some (run k)) \<and>
   (js_lt (step r) (Fin 0 0) \<and>
    (\<forall>j<k. js_ge (iter_add (step r) j (start r)) (end' r)) \<and>
    \<not> js_ge (iter_add (step r) k (start r)) (end' r) \<longrightarrow>
      forEach callback r s = Some (run k)) \<and>
   (js_gt (step r) (Fin 0 0) \<and>
    (\<forall>j<k. js_le (iter_add (step r) j (start r)) (end' r)) \<and> run k = Inl e \<longrightarrow>
      forEach callback r s = Some (Inl e)) \<and>
   (js_lt (step r) (Fin 0 0) \<and>
    (\<forall>j<k. js_ge (iter_add (step r) j (start r)) (end' r)) \<and> run k = Inl e \<longrightarrow>
      forEach callback r s = Some (Inl e)) \<and>
   (js_gt (step r) (Fin 0 0) \<and>
    (\<forall>j. js_le (iter_add (step r) j (start r)) (end' r)) \<and> (\<forall>n. \<exists>s'. run n = Inr s') \<longrightarrow>
      forEach callback r s = None) \<and>
   (js_lt (step r) (Fin 0 0) \<and>
    (\<forall>j. js_ge (iter_add (step r) j (start r)) (end' r)) \<and> (\<forall>n. \<exists>s'. run n = Inr s') \<longrightarrow>
      forEach callback r s = None) \<and>
   (js_eq (step r) (Fin 0 0) \<or> isNaN (step r) \<longrightarrow> forEach callback r s = Some (Inr s)) \<and>
   (\<forall>j. int j \<le> 2 ^ 53 \<longrightarrow> iter_add (Fin 1 0) j (Fin 0 0) = Fin (int j) 0) \<and>
   (\<forall>a d j. \<bar>a\<bar> \<le> 2 ^ 53 \<and> \<bar>a + int j * d\<bar> \<le> 2 ^ 53 \<longrightarrow>
      iter_add (Fin d 0) j (Fin a 0) = Fin (a + int j * d) 0) \<and>
   (\<forall>a d j. \<bar>a\<bar> \<le> 2 ^ 53 \<and> int j \<le> 2 ^ 53 \<and> \<bar>int j * d\<bar> \<le> 2 ^ 53 \<and>
        \<bar>a + int j * d\<bar> \<le> 2 ^ 53 \<longrightarrow>
      closed_form (Fin a 0) (Fin d 0) j = iter_add (Fin d 0) j (Fin a 0))"
proof -
  have cf: "closed_form (Fin a 0) (Fin d 0) j = iter_add (Fin d 0) j (Fin a 0)"
    if "\<bar>a\<bar> \<le> 2 ^ 53" "int j \<le> 2 ^ 53" "\<bar>int j * d\<bar> \<le> 2 ^ 53" "\<bar>a + int j * d\<bar> \<le> 2 ^ 53"
    for a d j
    using closed_form_int[OF that] iter_add_int[OF that(1,4)] by simp
  show ?thesis
    unfolding Let_def
    using forEach_up [of r k callback s] forEach_down [of r k callback s]
      forEach_up_raises [of r k callback s e] forEach_down_raises [of r k callback s e]
      forEach_up_forever [of r callback s] forEach_down_forever [of r callback s]
      forEach_no_step [of r callback s] zero_not_gt_lt [of "step r"] NaN_not_gt_lt [of "step r"]
      iter_add_index [of 0] iter_add_int cf
    by (auto simp add: js_eq_zero_iff)
qed

theorem forEach_invocations_witness:
  "forEach record_call \<lparr>start = Fin 2 0, step = Fin 1 0, end' = Fin 5 0\<rparr> [] =
     Some (Inr [(Fin 2 0, Fin 0 0, \<lparr>start = Fin 2 0, step = Fin 1 0, end' = Fin 5 0\<rparr>),
                (Fin 3 0, Fin 1 0, \<lparr>start = Fin 2 0, step = Fin 1 0, end' = Fin 5 0\<rparr>),
                (Fin 4 0, Fin 2 0, \<lparr>start = Fin 2 0, step = Fin 1 0, end' = Fin 5 0\<rparr>),
                (Fin 5 0, Fin 3 0, \<lparr>start = Fin 2 0, step = Fin 1 0, end' = Fin 5 0\<rparr>)]) \<and>
   forEach record_call \<lparr>start = Fin 2 0, step = Fin (- 1) 0, end' = Fin 1 0\<rparr> [] =
     Some (Inr [(Fin 2 0, Fin 0 0, \<lparr>start = Fin 2 0, step = Fin (- 1) 0, end' = Fin 1 0\<rparr>),
                (Fin 1 0, Fin 1 0, \<lparr>start = Fin 2 0, step = Fin (- 1) 0, end' = Fin 1 0\<rparr>)]) \<and>
   forEach record_call \<lparr>start = Fin 3 0, step = Fin 0 0, end' = Fin 3 0\<rparr> [] = Some (Inr []) \<and>
   forEach record_call \<lparr>start = Fin 3 0, step = NaN, end' = Fin 3 0\<rparr> [] = Some (Inr []) \<and>
   forEach (throw_at (Fin 25 0)) \<lparr>start = Fin 0 0, step = Fin 1 0, end' = PInf\<rparr> [] =
     Some (Inl (TypeError ''callback'')) \<and>
   forEach (throw_at (Fin 2 0)) \<lparr>start = Fin 0 0, step = Fin (- 1) 0, end' = NInf\<rparr> [] =
     Some (Inl (TypeError ''callback'')) \<and>
   forEach record_call \<lparr>start = Fin 0 0, step = Fin 1 0, end' = PInf\<rparr> [] = None \<and>
   forEach record_call \<lparr>start = Fin 0 0, step = Fin (- 1) 0, end' = NInf\<rparr> [] = None \<and>
   iter_add (Fin 1 0) 3 (Fin 0 0) = Fin 3 0 \<and>
   iter_add (Fin 3 0) 4 (Fin 2 0) = Fin 14 0 \<and>
   closed_form (Fin 2 0) (Fin 3 0) 4 = iter_add (Fin 3 0) 4 (Fin 2 0)"
proof -
  let ?r = "\<lparr>start = Fin 2 0, step = Fin 1 0, end' = Fin 5 0\<rparr>"
  let ?d = "\<lparr>start = Fin 2 0, step = Fin (- 1) 0, end' = Fin 1 0\<rparr>"
  let ?z = "\<lparr>start = Fin 3 0, step = Fin 0 0, end' = Fin 3 0\<rparr>"
  let ?u = "\<lparr>start = Fin 0 0, step = Fin 1 0, end' = PInf\<rparr>"
  let ?v = "\<lparr>start = Fin 0 0, step = Fin (- 1) 0, end' = NInf\<rparr>"
  note T = forEach_invocations [unfolded Let_def]
  have up: "js_gt (Fin 1 0) (Fin 0 0)"
    "js_le (iter_add (Fin 1 0) 0 (Fin 2 0)) (Fin 5 0)"
    "js_le (iter_add (Fin 1 0) 1 (Fin 2 0)) (Fin 5 0)"
    "js_le (iter_add (Fin 1 0) 2 (Fin 2 0)) (Fin 5 0)"
    "js_le (iter_add (Fin 1 0) 3 (Fin 2 0)) (Fin 5 0)"
    "\<not> js_le (iter_add (Fin 1 0) 4 (Fin 2 0)) (Fin 5 0)"
    by code_simp+
  have upall: "\<forall>j<4. js_le (iter_add (Fin 1 0) j (Fin 2 0)) (Fin 5 0)"
  proof (intro allI impI)
    fix j :: nat assume "j < 4"
    then have "j = 0 \<or> j = 1 \<or> j = 2 \<or> j = 3" by arith
    with up show "js_le (iter_add (Fin 1 0) j (Fin 2 0)) (Fin 5 0)" by auto
  qed
  have down: "js_lt (Fin (- 1) 0) (Fin 0 0)"
    "js_ge (iter_add (Fin (- 1) 0) 0 (Fin 2 0)) (Fin 1 0)"
    "js_ge (iter_add (Fin (- 1) 0) 1 (Fin 2 0)) (Fin 1 0)"
    "\<not> js_ge (iter_add (Fin (- 1) 0) 2 (Fin 2 0)) (Fin 1 0)"
    by code_simp+
  have downall: "\<forall>j<2. js_ge (iter_add (Fin (- 1) 0) j (Fin 2 0)) (Fin 1 0)"
  proof (intro allI impI)
    fix j :: nat assume "j < 2"
    then have "j = 0 \<or> j = 1" by arith
    with down show "js_ge (iter_add (Fin (- 1) 0) j (Fin 2 0)) (Fin 1 0)" by auto
  qed
  have z: "js_eq (Fin 0 0) (Fin 0 0)" by code_simp
  have nan: "isNaN NaN" by code_simp
  have c1: "run_calls (\<lambda>x i. record_call x i ?r)
      (map (\<lambda>j. (iter_add (Fin 1 0) j (Fin 2 0), iter_add (Fin 1 0) j (Fin 0 0))) [0..<4]) [] =
     Inr [(Fin 2 0, Fin 0 0, ?r), (Fin 3 0, Fin 1 0, ?r), (Fin 4 0, Fin 2 0, ?r), (Fin 5 0, Fin 3 0, ?r)]"
    by code_simp
  have c2: "run_calls (\<lambda>x i. record_call x i ?d)
      (map (\<lambda>j. (iter_add (Fin (- 1) 0) j (Fin 2 0), iter_add (Fin 1 0) j (Fin 0 0))) [0..<2]) [] =
     Inr [(Fin 2 0, Fin 0 0, ?d), (Fin 1 0, Fin 1 0, ?d)]"
    by code_simp
  have c3: "run_calls (\<lambda>x i. throw_at (Fin 25 0) x i ?u)
      (map (\<lambda>j. (iter_add (Fin 1 0) j (Fin 0 0), iter_add (Fin 1 0) j (Fin 0 0))) [0..<26]) [] =
     Inl (TypeError ''callback'')"
    by code_simp
  have c4: "run_calls (\<lambda>x i. throw_at (Fin 2 0) x i ?v)
      (map (\<lambda>j. (iter_add (Fin (- 1) 0) j (Fin 0 0), iter_add (Fin 1 0) j (Fin 0 0))) [0..<3]) [] =
     Inl (TypeError ''callback'')"
    by code_simp
  have uall: "\<forall>j. js_le (iter_add (Fin 1 0) j (Fin 0 0)) PInf"
    by (simp add: js_le_PInf iter_add_Fin_not_NaN)
  have vall: "\<forall>j. js_ge (iter_add (Fin (- 1) 0) j (Fin 0 0)) NInf"
    by (simp add: js_ge_NInf iter_add_Fin_not_NaN)
  have u26: "\<forall>j<26. js_le (iter_add (Fin 1 0) j (Fin 0 0)) PInf"
    and v3: "\<forall>j<3. js_ge (iter_add (Fin (- 1) 0) j (Fin 0 0)) NInf"
    using uall vall by blast+
  have tot: "\<forall>n. \<exists>s'. run_calls (\<lambda>x i. record_call x i q) (map (\<lambda>j. (X j, I j)) [0..<n]) [] = Inr s'" for q X I
    by (intro allI run_calls_total) (simp add: record_call_def)
  have b: "\<bar>2::int\<bar> \<le> 2 ^ 53" "int 4 \<le> 2 ^ 53" "\<bar>int 4 * 3\<bar> \<le> 2 ^ 53"
    "\<bar>2 + int 4 * 3\<bar> \<le> 2 ^ 53" "int 3 \<le> 2 ^ 53" "2 + int 4 * 3 = 14"
    by simp_all
  have A: "forEach record_call ?r [] = Some (Inr [(Fin 2 0, Fin 0 0, ?r), (Fin 3 0, Fin 1 0, ?r), (Fin 4 0, Fin 2 0, ?r), (Fin 5 0, Fin 3 0, ?r)])"
    using T [where r = ?r and k = 4 and callback = record_call and s = "[]"] up(1,6) upall
    by (simp only: c1 range_obj.simps simp_thms)
  have B: "forEach record_call ?d [] = Some (Inr [(Fin 2 0, Fin 0 0, ?d), (Fin 1 0, Fin 1 0, ?d)])"
    using T [where r = ?d and k = 2 and callback = record_call and s = "[]"] down(1,4) downall
    by (simp only: c2 range_obj.simps simp_thms)
  have C: "forEach record_call ?z [] = Some (Inr [])"
    using T [where r = ?z and callback = record_call and s = "[]"] z
    by (simp only: range_obj.simps simp_thms)
  have C': "forEach record_call \<lparr>start = Fin 3 0, step = NaN, end' = Fin 3 0\<rparr> [] = Some (Inr [])"
    using T [where r = "\<lparr>start = Fin 3 0, step = NaN, end' = Fin 3 0\<rparr>" and callback = record_call
        and s = "[]"] nan
    by (simp only: range_obj.simps simp_thms)
  have D: "forEach (throw_at (Fin 25 0)) ?u [] = Some (Inl (TypeError ''callback''))"
    using T [where r = ?u and k = 26 and callback = "throw_at (Fin 25 0)" and s = "[]"
        and e = "TypeError ''callback''"] up(1) u26 c3
    by (simp only: range_obj.simps simp_thms)
  have E: "forEach (throw_at (Fin 2 0)) ?v [] = Some (Inl (TypeError ''callback''))"
    using T [where r = ?v and k = 3 and callback = "throw_at (Fin 2 0)" and s = "[]"
        and e = "TypeError ''callback''"] down(1) v3 c4
    by (simp only: range_obj.simps simp_thms)
  have F: "forEach record_call ?u [] = None"
    using T [where r = ?u and callback = record_call and s = "[]"] up(1) uall
      tot [of ?u "\<lambda>j. iter_add (Fin 1 0) j (Fin 0 0)" "\<lambda>j. iter_add (Fin 1 0) j (Fin 0 0)"]
    by (simp only: range_obj.simps simp_thms)
  have G: "forEach record_call ?v [] = None"
    using T [where r = ?v and callback = record_call and s = "[]"] down(1) vall
      tot [of ?v "\<lambda>j. iter_add (Fin (- 1) 0) j (Fin 0 0)" "\<lambda>j. iter_add (Fin 1 0) j (Fin 0 0)"]
    by (simp only: range_obj.simps simp_thms)
  note I = T [where r = ?z and k = 0 and callback = record_call and s = "[]"
      and e = "TypeError []", THEN conjunct2, THEN conjunct2, THEN conjunct2, THEN conjunct2,
      THEN conjunct2, THEN conjunct2, THEN conjunct2]
  have H1: "iter_add (Fin 1 0) 3 (Fin 0 0) = Fin (int 3) 0"
    using I b(5) by blast
  have H2: "iter_add (Fin 3 0) 4 (Fin 2 0) = Fin (2 + int 4 * 3) 0"
    using I b(1,4) by blast
  have H3: "closed_form (Fin 2 0) (Fin 3 0) 4 = iter_add (Fin 3 0) 4 (Fin 2 0)"
    using I b(1-4) by blast
  have H: "iter_add (Fin 1 0) 3 (Fin 0 0) = Fin 3 0"
    "iter_add (Fin 3 0) 4 (Fin 2 0) = Fin 14 0"
    using H1 H2 by simp_all
  from A B C C' D E F G H H3 show ?thesis by (simp only: simp_thms)
qed

theorem forEach_closed_form_counterexample:
  "parse (Str (ascii ''0:0.1:0.6'')) =
     Inr (Some \<lparr>start = Fin 0 0, step = Fin 3602879701896397 55, end' = Fin 5404319552844595 53\<rparr>) \<and>
   forEach record_call
       \<lparr>start = Fin 0 0, step = Fin 3602879701896397 55, end' = Fin 5404319552844595 53\<rparr> [] =
     Some (Inr (map (\<lambda>(x, i). (x, Fin i 0,
         \<lparr>start = Fin 0 0, step = Fin 3602879701896397 55, end' = Fin 5404319552844595 53\<rparr>))
       [(Fin 0 0, 0), (Fin 3602879701896397 55, 1), (Fin 3602879701896397 54, 2),
        (Fin 1351079888211149 52, 3), (Fin 3602879701896397 53, 4), (Fin 1 1, 5),
        (Fin 5404319552844595 53, 6)])) \<and>
   closed_form (Fin 0 0) (Fin 3602879701896397 55) 6 = Fin 1351079888211149 51 \<and>
   \<not> js_le (closed_form (Fin 0 0) (Fin 3602879701896397 55) 6) (Fin 5404319552844595 53) \<and>
   (6 * 3602879701896397 :: int) * 2 ^ 53 > 5404319552844595 * 2 ^ 55"
  by code_simp

lemma forEach_returns:
  assumes "forEach callback r s = Some res"
    and tot: "\<And>x i s. \<exists>s'. callback x i r s = Inr s'"
  shows "(\<exists>s'. res = Inr s') \<and>
    (\<not> js_gt (step r) (Fin 0 0) \<and> \<not> js_lt (step r) (Fin 0 0) \<or>
     js_gt (step r) (Fin 0 0) \<and> (\<exists>k. \<not> js_le (iter_add (step r) k (start r)) (end' r)) \<or>
     js_lt (step r) (Fin 0 0) \<and> (\<exists>k. \<not> js_ge (iter_add (step r) k (start r)) (end' r)))"
proof -
  consider (up) "js_gt (step r) (Fin 0 0)"
    | (down) "\<not> js_gt (step r) (Fin 0 0)" "js_lt (step r) (Fin 0 0)"
    | (none) "\<not> js_gt (step r) (Fin 0 0)" "\<not> js_lt (step r) (Fin 0 0)"
    by blast
  then show ?thesis
  proof cases
    case up
    with assms(1) have "while_loop (\<lambda>x. js_le x (end' r)) (\<lambda>x i. callback x i r) (step r)
        (start r) (Fin 0 0) s = Some res"
      by (simp add: forEach_def)
    from while_loop_returns[OF this tot] up show ?thesis by blast
  next
    case down
    with assms(1) have "while_loop (\<lambda>x. js_ge x (end' r)) (\<lambda>x i. callback x i r) (step r)
        (start r) (Fin 0 0) s = Some res"
      by (simp add: forEach_def)
    from while_loop_returns[OF this tot] down show ?thesis by blast
  next
    case none
    with assms(1) show ?thesis by (auto simp: forEach_def)
  qed
qed

lemma forEach_raises:
  assumes "forEach callback r s = Some (Inl e)"
  shows "\<exists>x i s'. callback x i r s' = Inl e"
proof -
  consider (up) "js_gt (step r) (Fin 0 0)"
    | (down) "\<not> js_gt (step r) (Fin 0 0)" "js_lt (step r) (Fin 0 0)"
    | (none) "\<not> js_gt (step r) (Fin 0 0)" "\<not> js_lt (step r) (Fin 0 0)"
    by blast
  then show ?thesis
  proof cases
    case up
    with assms(1) have "while_loop (\<lambda>x. js_le x (end' r)) (\<lambda>x i. callback x i r) (step r)
        (start r) (Fin 0 0) s = Some (Inl e)"
      by (simp add: forEach_def)
    from while_loop_raises[OF this refl] show ?thesis by blast
  next
    case down
    with assms(1) have "while_loop (\<lambda>x. js_ge x (end' r)) (\<lambda>x i. callback x i r) (step r)
        (start r) (Fin 0 0) s = Some (Inl e)"
      by (simp add: forEach_def)
    from while_loop_raises[OF this refl] show ?thesis by blast
  next
    case none
    with assms(1) show ?thesis by (auto simp: forEach_def)
  qed
qed

lemma forEach_terminates:
  assumes "\<not> js_gt (step r) (Fin 0 0) \<and> \<not> js_lt (step r) (Fin 0 0) \<or>
     js_gt (step r) (Fin 0 0) \<and> (\<exists>k. \<not> js_le (iter_add (step r) k (start r)) (end' r)) \<or>
     js_lt (step r) (Fin 0 0) \<and> (\<exists>k. \<not> js_ge (iter_add (step r) k (start r)) (end' r))"
  shows "\<exists>res. forEach callback r s = Some res"
proof -
  consider (none) "\<not> js_gt (step r) (Fin 0 0)" "\<not> js_lt (step r) (Fin 0 0)"
    | (up) k where "js_gt (step r) (Fin 0 0)" "\<not> js_le (iter_add (step r) k (start r)) (end' r)"
    | (down) k where "js_lt (step r) (Fin 0 0)" "\<not> js_ge (iter_add (step r) k (start r)) (end' r)"
    using assms by blast
  then show ?thesis
  proof cases
    case none
    then show ?thesis by (simp add: forEach_no_step)
  next
    case up
    define n where "n = (LEAST k. \<not> js_le (iter_add (step r) k (start r)) (end' r))"
    have n: "\<not> js_le (iter_add (step r) n (start r)) (end' r)"
      unfolding n_def using up(2) by (rule LeastI)
    have lt: "\<And>j. j < n \<Longrightarrow> js_le (iter_add (step r) j (start r)) (end' r)"
      unfolding n_def using not_less_Least by blast
    show ?thesis using forEach_up[of r n callback s] up(1) n lt by blast
  next
    case down
    define n where "n = (LEAST k. \<not> js_ge (iter_add (step r) k (start r)) (end' r))"
    have n: "\<not> js_ge (iter_add (step r) n (start r)) (end' r)"
      unfolding n_def using down(2) by (rule LeastI)
    have lt: "\<And>j. j < n \<Longrightarrow> js_ge (iter_add (step r) j (start r)) (end' r)"
      unfolding n_def using not_less_Least by blast
    show ?thesis using forEach_down[of r n callback s] down(1) n lt by blast
  qed
qed

lemma forEach_total_iff:
  assumes "\<And>x i s'. \<exists>s''. callback x i r s' = Inr s''"
  shows "(\<forall>e. forEach callback r s \<noteq> Some (Inl e)) \<and>
      ((\<exists>res. forEach callback r s = Some res) =
       (\<not> js_gt (step r) (Fin 0 0) \<and> \<not> js_lt (step r) (Fin 0 0) \<or>
        js_gt (step r) (Fin 0 0) \<and> (\<exists>k. \<not> js_le (iter_add (step r) k (start r)) (end' r)) \<or>
        js_lt (step r) (Fin 0 0) \<and> (\<exists>k. \<not> js_ge (iter_add (step r) k (start r)) (end' r))))"
  using forEach_returns[of callback r s] forEach_terminates[of r callback s] assms by blast

text \<open>
  Claim C8, as the code has it. \<^verbatim>\<open>forEach\<close> raises only what the callback raises.
  With a callback that does not raise, it terminates exactly when the step is neither
  above nor below 0 (no invocation), or some value of the progression \<open>start\<close>,
  \<open>start + step\<close>, ... fails the comparison with \<open>end\<close>; these are exactly the
  cases in which \<^verbatim>\<open>toArray\<close>, \<^verbatim>\<open>toVector\<close>, \<^verbatim>\<open>valueOf\<close> and (with a callback
  that does not raise) \<^verbatim>\<open>map\<close> return an array. Otherwise the traversal runs forever,
  as it does when \<open>end\<close> is \<open>Infinity\<close> and \<open>step > 0\<close>, or when \<open>x + step\<close> rounds
  back to \<open>x\<close> (from \<open>2^53\<close> on with \<open>step = 1\<close>).
\<close>

theorem forEach_terminates_iff:
  "(\<forall>e. forEach callback r s = Some (Inl e) \<longrightarrow> (\<exists>x i s'. callback x i r s' = Inl e)) \<and>
   ((\<forall>x i s'. \<exists>s''. callback x i r s' = Inr s'') \<longrightarrow>
      (\<forall>e. forEach callback r s \<noteq> Some (Inl e)) \<and>
      ((\<exists>res. forEach callback r s = Some res) =
       (\<not> js_gt (step r) (Fin 0 0) \<and> \<not> js_lt (step r) (Fin 0 0) \<or>
        js_gt (step r) (Fin 0 0) \<and> (\<exists>k. \<not> js_le (iter_add (step r) k (start r)) (end' r)) \<or>
        js_lt (step r) (Fin 0 0) \<and> (\<exists>k. \<not> js_ge (iter_add (step r) k (start r)) (end' r))))) \<and>
   ((\<exists>array. toArray r = Some (Inr array)) =
       (\<not> js_gt (step r) (Fin 0 0) \<and> \<not> js_lt (step r) (Fin 0 0) \<or>
        js_gt (step r) (Fin 0 0) \<and> (\<exists>k. \<not> js_le (iter_add (step r) k (start r)) (end' r)) \<or>
        js_lt (step r) (Fin 0 0) \<and> (\<exists>k. \<not> js_ge (iter_add (step r) k (start r)) (end' r)))) \<and>
   valueOf r = toArray r \<and> toVector r = toArray r \<and>
   ((\<forall>x i u. \<exists>v u'. f x i r u = Inr (v, u')) \<longrightarrow>
      ((\<exists>array u'. map_range f r u = Some (Inr (array, u'))) =
       (\<not> js_gt (step r) (Fin 0 0) \<and> \<not> js_lt (step r) (Fin 0 0) \<or>
        js_gt (step r) (Fin 0 0) \<and> (\<exists>k. \<not> js_le (iter_add (step r) k (start r)) (end' r)) \<or>
        js_lt (step r) (Fin 0 0) \<and> (\<exists>k. \<not> js_ge (iter_add (step r) k (start r)) (end' r)))))"
proof -
  let ?cond = "\<not> js_gt (step r) (Fin 0 0) \<and> \<not> js_lt (step r) (Fin 0 0) \<or>
        js_gt (step r) (Fin 0 0) \<and> (\<exists>k. \<not> js_le (iter_add (step r) k (start r)) (end' r)) \<or>
        js_lt (step r) (Fin 0 0) \<and> (\<exists>k. \<not> js_ge (iter_add (step r) k (start r)) (end' r))"
  have raise: "\<forall>e. forEach callback r s = Some (Inl e) \<longrightarrow> (\<exists>x i s'. callback x i r s' = Inl e)"
    using forEach_raises[of callback r s] by blast
  have gen: "(\<forall>x i s'. \<exists>s''. callback x i r s' = Inr s'') \<longrightarrow>
      (\<forall>e. forEach callback r s \<noteq> Some (Inl e)) \<and> ((\<exists>res. forEach callback r s = Some res) = ?cond)"
    using forEach_total_iff[of callback r s] by blast
  have "(\<forall>e. toArray r \<noteq> Some (Inl e)) \<and> ((\<exists>res. toArray r = Some res) = ?cond)"
    unfolding toArray_def by (rule forEach_total_iff) simp
  then have arr: "(\<exists>array. toArray r = Some (Inr array)) = ?cond"
    by (metis sumE)
  have mp: "(\<forall>x i u. \<exists>v u'. f x i r u = Inr (v, u')) \<longrightarrow>
      ((\<exists>array u'. map_range f r u = Some (Inr (array, u'))) = ?cond)"
  proof
    assume tot: "\<forall>x i u. \<exists>v u'. f x i r u = Inr (v, u')"
    have "(\<forall>e. map_range f r u \<noteq> Some (Inl e)) \<and> ((\<exists>res. map_range f r u = Some res) = ?cond)"
      unfolding map_range_def
    proof (rule forEach_total_iff)
      show "\<exists>s''. (case s' of (array, u) \<Rightarrow>
            case f x i r u of Inl e \<Rightarrow> Inl e | Inr (v, u') \<Rightarrow> Inr (array_put array i v, u')) = Inr s''"
        for x i s'
      proof (cases s')
        case (Pair array u)
        from tot obtain v u' where "f x i r u = Inr (v, u')" by blast
        then show ?thesis by (simp add: Pair)
      qed
    qed
    then show "(\<exists>array u'. map_range f r u = Some (Inr (array, u'))) = ?cond"
      by (metis sumE surj_pair)
  qed
  show ?thesis
    using raise gen arr mp by (simp only: valueOf_def toVector_def simp_thms)
qed

theorem forEach_terminates_iff_witness:
  "(\<forall>x i s'. \<exists>s''. record_call x i \<lparr>start = Fin 2 0, step = Fin 1 0, end' = Fin 5 0\<rparr> s' = Inr s'') \<and>
   js_gt (Fin 1 0) (Fin 0 0) \<and>
   \<not> js_le (iter_add (Fin 1 0) 4 (Fin 2 0)) (Fin 5 0) \<and>
   (\<exists>res. forEach record_call \<lparr>start = Fin 2 0, step = Fin 1 0, end' = Fin 5 0\<rparr> [] = Some res) \<and>
   (\<forall>e. forEach record_call \<lparr>start = Fin 2 0, step = Fin 1 0, end' = Fin 5 0\<rparr> [] \<noteq> Some (Inl e)) \<and>
   (\<exists>array. toArray \<lparr>start = Fin 2 0, step = Fin 1 0, end' = Fin 5 0\<rparr> = Some (Inr array))"
proof -
  let ?r = "\<lparr>start = Fin 2 0, step = Fin 1 0, end' = Fin 5 0\<rparr>"
  have tot: "\<forall>x i s'. \<exists>s''. record_call x i ?r s' = Inr s''"
    by (simp add: record_call_def)
  have up: "js_gt (Fin 1 0) (Fin 0 0)" "\<not> js_le (iter_add (Fin 1 0) 4 (Fin 2 0)) (Fin 5 0)"
    by code_simp+
  then have "js_gt (step ?r) (Fin 0 0) \<and> (\<exists>k. \<not> js_le (iter_add (step ?r) k (start ?r)) (end' ?r))"
    by auto
  with forEach_terminates_iff [of record_call ?r "[]" "\<lambda>x i obj u. Inr (x, u)" "()"] tot up
  show ?thesis
    by blast
qed

theorem forEach_diverges_counterexample:
  "forEach record_call \<lparr>start = Fin 0 0, step = Fin 1 0, end' = PInf\<rparr> [] = None \<and>
   toArray \<lparr>start = Fin 0 0, step = Fin 1 0, end' = PInf\<rparr> = None \<and>
   js_add (Fin 9007199254740992 0) (Fin 1 0) = Fin 9007199254740992 0 \<and>
   toArray \<lparr>start = Fin 9007199254740992 0, step = Fin 1 0, end' = Fin 9007199254740994 0\<rparr> = None"
proof -
  have gt: "js_gt (Fin 1 0) (Fin 0 0)" by code_simp
  have inf: "\<And>k. js_le (iter_add (Fin 1 0) k (Fin 0 0)) PInf"
    by (simp add: js_le_PInf iter_add_one_not_NaN)
  have stall: "js_add (Fin 9007199254740992 0) (Fin 1 0) = Fin 9007199254740992 0"
    and le: "js_le (Fin 9007199254740992 0) (Fin 9007199254740994 0)"
    by code_simp+
  have stuck: "\<And>k. js_le (iter_add (Fin 1 0) k (Fin 9007199254740992 0)) (Fin 9007199254740994 0)"
    by (simp add: iter_add_fixed[OF stall] le)
  have 1: "forEach record_call \<lparr>start = Fin 0 0, step = Fin 1 0, end' = PInf\<rparr> [] = None"
    using gt inf by (simp add: forEach_def while_loop_diverges record_call_def)
  have 2: "toArray \<lparr>start = Fin 0 0, step = Fin 1 0, end' = PInf\<rparr> = None"
    using gt inf by (simp add: toArray_def forEach_def while_loop_diverges)
  have 3: "toArray \<lparr>start = Fin 9007199254740992 0, step = Fin 1 0, end' = Fin 9007199254740994 0\<rparr> = None"
    using gt stuck by (simp add: toArray_def forEach_def while_loop_diverges)
  from 1 2 3 stall show ?thesis by simp
qed

section \<open>Scalars\<close>

text \<open>
  Claim C9, as the code has it. For every Range with \<open>step == 0\<close> and
  \<open>start == end\<close>, \<^verbatim>\<open>isScalar()\<close> returns false and \<^verbatim>\<open>toScalar()\<close> returns null:
  \<^verbatim>\<open>size()\<close> reports the length 0 there (claim C1), so the classification by
  \<^verbatim>\<open>size()\<close> and the extraction by \<^verbatim>\<open>toArray()\<close> agree.
\<close>

theorem zero_step_scalar:
  assumes "js_eq (step r) (Fin 0 0)" and "js_eq (start r) (end' r)"
  shows "isScalar r = False \<and> toScalar r = Some (Inr Null)"
proof -
  have "is_zero (step r)" using assms(1) by (simp add: js_eq_zero_iff)
  then have "toArray r = Some (Inr [])"
    using zero_not_gt_lt[of "step r"] by (simp add: toArray_def forEach_no_step)
  then show ?thesis
    using size_zero_step[OF assms] by (simp add: isScalar_def toScalar_def js_eq_def isNaN_def)
qed

theorem zero_step_scalar_witness:
  "js_eq (Fin 0 0) (Fin 0 0) \<and> js_eq (Fin 3 0) (Fin 3 0) \<and>
   isScalar \<lparr>start = Fin 3 0, step = Fin 0 0, end' = Fin 3 0\<rparr> = False \<and>
   toScalar \<lparr>start = Fin 3 0, step = Fin 0 0, end' = Fin 3 0\<rparr> = Some (Inr Null)"
proof -
  have h: "js_eq (Fin 0 0) (Fin 0 0)" "js_eq (Fin 3 0) (Fin 3 0)"
    by (simp_all add: js_eq_def isNaN_def)
  show ?thesis
    using h zero_step_scalar [of "\<lparr>start = Fin 3 0, step = Fin 0 0, end' = Fin 3 0\<rparr>"]
    by simp
qed

theorem zero_step_scalar_counterexample:
  "js_eq (step \<lparr>start = Fin 3 0, step = Fin 0 0, end' = Fin 3 0\<rparr>) (Fin 0 0) \<and>
   js_eq (start \<lparr>start = Fin 3 0, step = Fin 0 0, end' = Fin 3 0\<rparr>)
     (end' \<lparr>start = Fin 3 0, step = Fin 0 0, end' = Fin 3 0\<rparr>) \<and>
   \<not> isScalar \<lparr>start = Fin 3 0, step = Fin 0 0, end' = Fin 3 0\<rparr>"
  by code_simp

section \<open>Rendering\<close>

lemma split_no_sep: "sep \<notin> set a \<Longrightarrow> split sep a = [a]"
  by (induction a) auto

lemma split_append: "sep \<notin> set a \<Longrightarrow> split sep (a @ sep # b) = a # split sep b"
  by (induction a) auto

lemma ascii_colon: "ascii '':'' = [58]"
  by (simp add: ascii_def)

lemma binary64_eq_one:
  assumes "binary64 x" and "js_eq x (Fin 1 0)"
  shows "x = Fin 1 0"
proof (cases x)
  case (Fin m k)
  with assms(2) have m: "m = 2 ^ k" by (simp add: js_eq_def isNaN_def)
  from assms(1) Fin have "k = 0 \<or> odd m" by (simp add: binary64_def)
  with m have "k = 0" by (cases k) auto
  with m Fin show ?thesis by simp
qed (use assms(2) in \<open>simp_all add: js_eq_def isNaN_def\<close>)

lemma toString_shape:
  "toString format r =
     format (start r) @ (if js_ne (step r) (Fin 1 0) then ascii '':'' @ format (step r) else [])
       @ ascii '':'' @ format (end' r)"
  by (simp add: toString_def Let_def)

lemma roundtrip_parse:
  assumes b: "binary64 (step r)"
    and c: "58 \<notin> set (format (start r))" "58 \<notin> set (format (end' r))"
    and n: "Number (Str (format (start r))) = start r" "Number (Str (format (end' r))) = end' r"
    and nn: "\<not> isNaN (start r)" "\<not> isNaN (end' r)"
    and st: "js_ne (step r) (Fin 1 0) \<longrightarrow> 58 \<notin> set (format (step r)) \<and>
       Number (Str (format (step r))) = step r \<and> \<not> isNaN (step r)"
  shows "parse (Str (toString format r)) = Inr (Some r)"
proof (cases "js_ne (step r) (Fin 1 0)")
  case True
  with st have s: "58 \<notin> set (format (step r))" "StringToNumber (format (step r)) = step r"
    "\<not> isNaN (step r)" by simp_all
  have "split 58 (toString format r) = [format (start r), format (step r), format (end' r)]"
    using True c s(1) by (simp add: toString_shape ascii_colon split_append split_no_sep)
  from parse_three[OF this] n nn s show ?thesis by simp
next
  case False
  then have one: "step r = Fin 1 0" using b by (simp add: js_ne_def binary64_eq_one)
  have "split 58 (toString format r) = [format (start r), format (end' r)]"
    using False c by (simp add: toString_shape ascii_colon split_append split_no_sep)
  from parse_two[OF this] n nn one show ?thesis by simp
qed

text \<open>
  Claim C7. \<^verbatim>\<open>toString()\<close> emits the formatted start, then a colon and the formatted
  step only when \<open>step != 1\<close>, then a colon and the formatted end. When the emitted
  numerals contain no colon and convert back, with \<^verbatim>\<open>Number\<close>, to the field values
  they stand for (which are then not NaN), \<^verbatim>\<open>Range.parse(range.toString())\<close> is a
  Range with the fields of the original one, so its \<^verbatim>\<open>toArray()\<close> equals that of the
  original Range. The formatter is any function from Numbers to strings.
\<close>

theorem toString_parse_roundtrip:
  "toString format r =
     format (start r) @ (if js_ne (step r) (Fin 1 0) then ascii '':'' @ format (step r) else [])
       @ ascii '':'' @ format (end' r) \<and>
   (binary64 (step r) \<and>
    58 \<notin> set (format (start r)) \<and> Number (Str (format (start r))) = start r \<and> \<not> isNaN (start r) \<and>
    58 \<notin> set (format (end' r)) \<and> Number (Str (format (end' r))) = end' r \<and> \<not> isNaN (end' r) \<and>
    (js_ne (step r) (Fin 1 0) \<longrightarrow>
       58 \<notin> set (format (step r)) \<and> Number (Str (format (step r))) = step r \<and> \<not> isNaN (step r))
    \<longrightarrow> (\<exists>r'. parse (Str (toString format r)) = Inr (Some r') \<and> r' = r \<and> toArray r' = toArray r))"
  using toString_shape [of format r] roundtrip_parse [of r format]
  by simp

theorem toString_parse_roundtrip_witness:
  "toString (\<lambda>x. if x = Fin 2 0 then ascii ''2'' else if x = Fin 1 2 then ascii ''0.25'' else ascii ''5'')
     \<lparr>start = Fin 2 0, step = Fin 1 0, end' = Fin 5 0\<rparr> = ascii ''2:5'' \<and>
   parse (Str (ascii ''2:5'')) = Inr (Some \<lparr>start = Fin 2 0, step = Fin 1 0, end' = Fin 5 0\<rparr>) \<and>
   toString (\<lambda>x. if x = Fin 2 0 then ascii ''2'' else if x = Fin 1 2 then ascii ''0.25'' else ascii ''5'')
     \<lparr>start = Fin 2 0, step = Fin 1 2, end' = Fin 5 0\<rparr> = ascii ''2:0.25:5'' \<and>
   parse (Str (ascii ''2:0.25:5'')) = Inr (Some \<lparr>start = Fin 2 0, step = Fin 1 2, end' = Fin 5 0\<rparr>)"
proof -
  let ?f = "\<lambda>x. if x = Fin 2 0 then ascii ''2'' else if x = Fin 1 2 then ascii ''0.25'' else ascii ''5''"
  let ?r = "\<lparr>start = Fin 2 0, step = Fin 1 0, end' = Fin 5 0\<rparr>"
  let ?h = "\<lparr>start = Fin 2 0, step = Fin 1 2, end' = Fin 5 0\<rparr>"
  have b: "binary64 (Fin 1 0)" "binary64 (Fin 1 2)" by code_simp+
  have c: "58 \<notin> set (ascii ''2'')" "58 \<notin> set (ascii ''5'')" "58 \<notin> set (ascii ''0.25'')"
    by code_simp+
  have n: "StringToNumber (ascii ''2'') = Fin 2 0" "StringToNumber (ascii ''5'') = Fin 5 0"
    "StringToNumber (ascii ''0.25'') = Fin 1 2"
    by code_simp+
  have j: "\<not> js_ne (Fin 1 0) (Fin 1 0)" "js_ne (Fin 1 2) (Fin 1 0)" by code_simp+
  have t: "ascii ''2'' @ ascii '':'' @ ascii ''5'' = ascii ''2:5''"
    "ascii ''2'' @ ascii '':'' @ ascii ''0.25'' @ ascii '':'' @ ascii ''5'' = ascii ''2:0.25:5''"
    by (simp_all add: ascii_def)
  show ?thesis
    using toString_parse_roundtrip [of ?f ?r] toString_parse_roundtrip [of ?f ?h]
    by (auto simp add: b c n j t isNaN_def)
qed

section \<open>The length of a Range\<close>

lemma js_floor_norm: "js_floor (norm m j) = Fin (m div 2 ^ j) 0"
proof (induction m j rule: norm.induct)
  case (1 m)
  then show ?case by simp
next
  case (2 m k)
  show ?case
  proof (cases "even m")
    case True
    have "m div 2 div 2 ^ k = m div 2 ^ Suc k"
      by (simp add: zdiv_zmult2_eq)
    with True 2 show ?thesis by simp
  next
    case False
    then show ?thesis by simp
  qed
qed

lemma flog2_range:
  "bitlen a - bitlen b - 1 \<le> flog2 a b \<and> flog2 a b \<le> bitlen a - bitlen b"
  by (simp add: flog2_def Let_def)

lemma flog2_lower:
  assumes "0 < a" and "0 < b" and "0 \<le> flog2 a b"
  shows "b * 2 ^ nat (flog2 a b) \<le> a"
proof (cases "flog2 a b = bitlen a - bitlen b")
  case True
  with assms(3) show ?thesis
    by (auto simp: flog2_def Let_def split: if_splits)
next
  case False
  with flog2_range[of a b] have e: "flog2 a b = bitlen a - bitlen b - 1"
    by (auto simp: flog2_def Let_def split: if_splits)
  from bitlen_bounds[OF assms(1)] have a: "2 ^ nat (bitlen a - 1) \<le> a" by simp
  from bitlen_bounds[OF assms(2)] have b: "b < 2 ^ nat (bitlen b)" by simp
  have lb: "0 \<le> bitlen b" by (rule bitlen_nonneg)
  have "b * 2 ^ nat (flog2 a b) \<le> 2 ^ nat (bitlen b) * 2 ^ nat (flog2 a b)"
    using b by (intro mult_right_mono) simp_all
  also have "\<dots> = 2 ^ (nat (bitlen b) + nat (flog2 a b))"
    by (simp add: power_add)
  also have "nat (bitlen b) + nat (flog2 a b) = nat (bitlen a - 1)"
    using e assms(3) lb by linarith
  finally show ?thesis using a by linarith
qed

lemma rne_div_floor:
  assumes s: "0 < s" and d: "0 \<le> d" and P: "s \<le> P"
  shows "rne_div (d * P) s div P = d div s"
proof -
  define q where "q = d div s"
  define rr where "rr = d mod s"
  define g where "g = (rr * P) div s"
  define h where "h = (rr * P) mod s"
  have dq: "d = q * s + rr" by (simp add: q_def rr_def)
  have rr: "0 \<le> rr" "rr < s" using s by (simp_all add: rr_def)
  have hh: "0 \<le> h" "h < s" using s by (simp_all add: h_def)
  have gh: "rr * P = g * s + h" by (simp add: g_def h_def)
  have Ppos: "0 < P" using s P by linarith
  have N: "d * P = (q * P) * s + rr * P" by (simp add: dq algebra_simps)
  have f: "(d * P) div s = q * P + g"
    unfolding N g_def using s by simp
  have hm: "(d * P) mod s = h"
    unfolding N h_def using s by simp
  have g0: "0 \<le> g" unfolding g_def using rr Ppos s by (simp add: pos_imp_zdiv_nonneg_iff)
  have "rr * P \<le> (s - 1) * P" using rr Ppos by (intro mult_right_mono) simp_all
  then have le: "g * s + h \<le> s * P - P" using gh by (simp add: algebra_simps)
  have gP: "g < P"
  proof (rule ccontr)
    assume "\<not> g < P"
    then have "P * s \<le> g * s" using s by (intro mult_right_mono) simp_all
    with le hh Ppos show False by (simp add: algebra_simps)
  qed
  have up: "g + 1 < P" if "1 \<le> h"
  proof (rule ccontr)
    assume "\<not> g + 1 < P"
    with gP have "g = P - 1" by linarith
    with le have "(P - 1) * s + h \<le> s * P - P" by simp
    then have "P + h \<le> s" by (simp add: algebra_simps)
    with that P show False by linarith
  qed
  have q1: "(q * P + g) div P = q" using g0 gP Ppos by simp
  have q2: "(q * P + g + 1) div P = q" if "1 \<le> h"
  proof -
    have "(q * P + (g + 1)) div P = q" using g0 up[OF that] Ppos by simp
    then show ?thesis by (simp add: add.assoc)
  qed
  have "rne_div (d * P) s = q * P + g \<or> (rne_div (d * P) s = q * P + g + 1 \<and> 1 \<le> h)"
    using s hh by (auto simp: rne_div_def Let_def f hm)
  then show ?thesis using q1 q2 by (auto simp: q_def)
qed

lemma rne_div_pos:
  assumes "0 < s" and "s \<le> n"
  shows "0 < rne_div n s"
proof -
  have "0 < n div s" using assms by (simp add: pos_imp_zdiv_pos_iff)
  with rne_div_ge[of n s] show ?thesis by linarith
qed

lemma round_frac_small:
  assumes "e = flog2 a b" and "- 1022 \<le> e" and "e < 52" and "rne_div (a * 2 ^ nat (52 - e)) b \<noteq> 0"
  shows "round_frac False a b = norm (rne_div (a * 2 ^ nat (52 - e)) b) (nat (52 - e))"
proof -
  have mx: "max (flog2 a b) (- 1022) - 52 = e - 52" using assms(1,2) by simp
  have neg: "\<not> 0 \<le> e - 52" using assms(3) by simp
  have n: "nat (- (e - 52)) = nat (52 - e)" by simp
  show ?thesis
    unfolding round_frac_def Let_def mx
    by (simp only: neg if_False n assms(4))
qed

lemma js_floor_div_pos:
  assumes d: "0 < d" "d < 2 ^ 52" and s: "0 < s" "s \<le> 2 ^ 52"
  shows "js_floor (round_frac False d s) = Fin (d div s) 0"
proof -
  define e where "e = flog2 d s"
  have la: "1 \<le> bitlen d" "bitlen d \<le> 52"
    using d bitlen_le[of d 52] by (simp_all add: bitlen_alt_def)
  have "s < 2 ^ 53" using s(2) by simp
  then have lb: "1 \<le> bitlen s" "bitlen s \<le> 53"
    using s(1) bitlen_le[of s 53] by (simp_all add: bitlen_alt_def)
  from flog2_range[of d s] la lb have er: "- 53 \<le> e" "e \<le> 51" by (simp_all add: e_def)
  define P :: int where "P = 2 ^ nat (52 - e)"
  have Ppos: "0 < P" by (simp add: P_def)
  have sP: "s \<le> P"
  proof (cases "0 \<le> e")
    case True
    from flog2_lower[OF d(1) s(1)] True have "s * 2 ^ nat e \<le> d" by (simp add: e_def)
    with d(2) have lt: "s * 2 ^ nat e < 2 ^ 52" by linarith
    have "P * 2 ^ nat e = 2 ^ (nat (52 - e) + nat e)"
      unfolding P_def by (rule power_add[symmetric])
    also have "nat (52 - e) + nat e = 52" using True er by linarith
    finally have "P * 2 ^ nat e = 2 ^ 52" .
    with lt have "s * 2 ^ nat e < P * 2 ^ nat e" by simp
    then have "s < P" by (simp only: mult_less_cancel_right_pos zero_less_power zero_less_numeral)
    then show ?thesis by simp
  next
    case False
    then have "(2::int) ^ 52 \<le> 2 ^ nat (52 - e)" by (intro power_increasing) simp_all
    with s(2) show ?thesis unfolding P_def by linarith
  qed
  have "1 * P \<le> d * P" using d(1) Ppos by (intro mult_right_mono) simp_all
  with sP have "s \<le> d * P" by simp
  then have m0: "rne_div (d * P) s \<noteq> 0" using rne_div_pos[OF s(1)] by force
  have fl: "rne_div (d * P) s div P = d div s"
    using s(1) d(1) sP by (intro rne_div_floor) simp_all
  have "round_frac False d s = norm (rne_div (d * P) s) (nat (52 - e))"
    unfolding P_def using er m0 by (intro round_frac_small) (simp_all add: e_def P_def)
  then show ?thesis
    using fl by (simp only: js_floor_norm P_def)
qed

lemma array_index_int: "0 \<le> m \<Longrightarrow> m < 2 ^ 32 - 1 \<Longrightarrow> array_index (Fin m 0) = Some (nat m)"
  by (simp add: array_index_def)

lemma array_put_append:
  "int (length array) < 2 ^ 32 - 1 \<Longrightarrow>
   array_put array (Fin (int (length array)) 0) v = array @ [Some v]"
  by (simp add: array_put_def array_index_int)

lemma run_calls_collect:
  assumes "int n \<le> 2 ^ 32 - 1" and "length array = m" and "m \<le> n"
  shows "run_calls (\<lambda>x i array. Inr (array_put array i x))
           (map (\<lambda>j. (X j, Fin (int j) 0)) [m..<n]) array =
         Inr (array @ map (\<lambda>j. Some (X j)) [m..<n])"
  using assms
proof (induction "n - m" arbitrary: m array)
  case 0
  then show ?case by simp
next
  case (Suc d)
  then have lt: "m < n" by simp
  have put: "array_put array (Fin (int m) 0) (X m) = array @ [Some (X m)]"
    using array_put_append[of array "X m"] Suc.prems lt by simp
  have "run_calls (\<lambda>x i array. Inr (array_put array i x))
           (map (\<lambda>j. (X j, Fin (int j) 0)) [Suc m..<n]) (array @ [Some (X m)]) =
         Inr ((array @ [Some (X m)]) @ map (\<lambda>j. Some (X j)) [Suc m..<n])"
    using Suc.hyps(2) Suc.prems lt by (intro Suc.hyps(1)) simp_all
  then show ?case using lt by (simp add: upt_conv_Cons put)
qed

lemma count_up:
  assumes "0 < s" and "a \<le> b"
  shows "\<not> a + int (nat ((b - a) div s + 1)) * s \<le> b"
    and "j < nat ((b - a) div s + 1) \<Longrightarrow> a + int j * s \<le> b"
proof -
  define q where "q = (b - a) div s"
  have q0: "0 \<le> q" using assms by (simp add: q_def pos_imp_zdiv_nonneg_iff)
  have eq: "b - a = q * s + (b - a) mod s" by (simp add: q_def)
  have m: "0 \<le> (b - a) mod s" "(b - a) mod s < s" using assms(1) by simp_all
  have "b - a < (q + 1) * s" using eq m by (simp add: algebra_simps)
  then show "\<not> a + int (nat ((b - a) div s + 1)) * s \<le> b"
    using q0 by (simp add: q_def[symmetric])
  assume "j < nat ((b - a) div s + 1)"
  then have "int j \<le> q" using q0 by (simp add: q_def[symmetric])
  then have "int j * s \<le> q * s" using assms(1) by (intro mult_right_mono) simp_all
  with eq m show "a + int j * s \<le> b" by linarith
qed

lemma count_down:
  assumes "s < 0" and "b \<le> a"
  shows "\<not> b \<le> a + int (nat ((b - a) div s + 1)) * s"
    and "j < nat ((b - a) div s + 1) \<Longrightarrow> b \<le> a + int j * s"
proof -
  define q where "q = (b - a) div s"
  have q0: "0 \<le> q" using assms by (simp add: q_def neg_imp_zdiv_nonneg_iff)
  have eq: "b - a = q * s + (b - a) mod s" by (simp add: q_def)
  have m: "(b - a) mod s \<le> 0" "s < (b - a) mod s" using assms(1) by simp_all
  have "(q + 1) * s < b - a" using eq m by (simp add: algebra_simps)
  then show "\<not> b \<le> a + int (nat ((b - a) div s + 1)) * s"
    using q0 by (simp add: q_def[symmetric])
  assume "j < nat ((b - a) div s + 1)"
  then have "int j \<le> q" using q0 by (simp add: q_def[symmetric])
  then have "q * s \<le> int j * s" using assms(1) by (intro mult_right_mono_neg) simp_all
  with eq m show "b \<le> a + int j * s" by linarith
qed

lemma rne_div_nonneg:
  assumes "0 \<le> n" and "0 < d"
  shows "0 \<le> rne_div n d"
proof -
  have "0 \<le> n div d" using assms by (simp add: pos_imp_zdiv_nonneg_iff)
  with rne_div_ge[of n d] show ?thesis by linarith
qed

lemma norm_sign:
  "(0 \<le> m \<longrightarrow> \<not> js_lt (norm m k) (Fin 0 0)) \<and> (m \<le> 0 \<longrightarrow> \<not> js_gt (norm m k) (Fin 0 0))"
proof (induction m k rule: norm.induct)
  case (1 m)
  then show ?case by (simp add: js_lt_def js_gt_def isNaN_def)
next
  case (2 m k)
  show ?case
  proof (cases "even m")
    case True
    have "0 \<le> m \<Longrightarrow> 0 \<le> m div 2" "m \<le> 0 \<Longrightarrow> m div 2 \<le> 0" by simp_all
    with True 2 show ?thesis by auto
  next
    case False
    then show ?thesis by (simp add: js_lt_def js_gt_def isNaN_def)
  qed
qed

lemma round_frac_cases:
  assumes "0 \<le> a" and "0 < b"
  shows "\<exists>m j. 0 \<le> m \<and>
     (round_frac neg a b = inf_of neg \<or> round_frac neg a b = zero_of neg \<or>
      round_frac neg a b = norm (if neg then - m else m) j)"
proof -
  define t where "t = max (flog2 a b) (- 1022) - 52"
  define m where "m = (if 0 \<le> t then rne_div a (b * 2 ^ nat t) else rne_div (a * 2 ^ nat (- t)) b)"
  have m0: "0 \<le> m"
    unfolding m_def using assms by (auto intro!: rne_div_nonneg mult_pos_pos)
  have rf: "round_frac neg a b =
     (if 0 \<le> t then (if 2 ^ 1024 \<le> m * 2 ^ nat t then inf_of neg
            else Fin ((if neg then - m else m) * 2 ^ nat t) 0)
      else if m = 0 then zero_of neg else norm (if neg then - m else m) (nat (- t)))"
    unfolding round_frac_def Let_def t_def m_def by (rule refl)
  have n0: "Fin ((if neg then - m else m) * 2 ^ nat t) 0 =
      norm (if neg then - (m * 2 ^ nat t) else m * 2 ^ nat t) 0"
    by (cases neg) (simp_all only: norm.simps if_True if_False mult_minus_left)
  have c: "round_frac neg a b = inf_of neg \<or> round_frac neg a b = zero_of neg \<or>
      round_frac neg a b = norm (if neg then - (m * 2 ^ nat t) else m * 2 ^ nat t) 0 \<or>
      round_frac neg a b = norm (if neg then - m else m) (nat (- t))"
    unfolding rf n0
    by (cases "0 \<le> t"; cases "(2::int) ^ 1024 \<le> m * 2 ^ nat t"; cases "m = 0")
       (simp_all only: if_True if_False simp_thms)
  have "0 \<le> m * 2 ^ nat t" using m0 by simp
  with c m0 show ?thesis by blast
qed

lemma round_frac_sign:
  assumes "0 \<le> a" and "0 < b"
  shows "\<not> js_lt (round_frac False a b) (Fin 0 0)" and "\<not> js_gt (round_frac True a b) (Fin 0 0)"
proof -
  from round_frac_cases[OF assms, of False] obtain m j where "0 \<le> m"
    "round_frac False a b = PInf \<or> round_frac False a b = Fin 0 0 \<or>
     round_frac False a b = norm m j"
    by (auto simp: inf_of_def zero_of_def)
  then show "\<not> js_lt (round_frac False a b) (Fin 0 0)"
    using norm_sign[of m j] by (auto simp: js_lt_def isNaN_def)
  from round_frac_cases[OF assms, of True] obtain m j where "0 \<le> m"
    "round_frac True a b = NInf \<or> round_frac True a b = NegZero \<or>
     round_frac True a b = norm (- m) j"
    by (auto simp: inf_of_def zero_of_def)
  then show "\<not> js_gt (round_frac True a b) (Fin 0 0)"
    using norm_sign[of "- m" j] by (auto simp: js_gt_def js_lt_def isNaN_def)
qed

lemma pow2_cross_le:
  fixes m1 m2 :: int
  assumes "m1 * 2 ^ k2 \<le> m2 * 2 ^ k1"
  shows "m1 * 2 ^ (max k1 k2 - k1) \<le> m2 * 2 ^ (max k1 k2 - k2)"
proof -
  have "m1 * 2 ^ (max k1 k2 - k1) * 2 ^ (k1 + k2) = m1 * 2 ^ k2 * 2 ^ max k1 k2"
    by (simp add: power_add[symmetric] max_def)
  also have "\<dots> \<le> m2 * 2 ^ k1 * 2 ^ max k1 k2"
    using assms by (intro mult_right_mono) simp_all
  also have "\<dots> = m2 * 2 ^ (max k1 k2 - k2) * 2 ^ (k1 + k2)"
    by (simp add: power_add[symmetric] max_def)
  finally show ?thesis by (simp only: mult_le_cancel_right_pos zero_less_power zero_less_numeral)
qed

lemma js_lt_zero_self: "\<not> js_lt (Fin 0 0) (Fin 0 0)" "\<not> js_gt (Fin 0 0) (Fin 0 0)"
  by (simp_all add: js_lt_def js_gt_def)

lemma js_add_sign:
  shows "0 \<le> m1 * 2 ^ (max k1 k2 - k1) + m2 * 2 ^ (max k1 k2 - k2) \<Longrightarrow>
      \<not> js_lt (js_add (Fin m1 k1) (Fin m2 k2)) (Fin 0 0)"
    and "m1 * 2 ^ (max k1 k2 - k1) + m2 * 2 ^ (max k1 k2 - k2) \<le> 0 \<Longrightarrow>
      \<not> js_gt (js_add (Fin m1 k1) (Fin m2 k2)) (Fin 0 0)"
proof -
  define s where "s = m1 * 2 ^ (max k1 k2 - k1) + m2 * 2 ^ (max k1 k2 - k2)"
  have e: "js_add (Fin m1 k1) (Fin m2 k2) =
      (if s = 0 then Fin 0 0 else round_frac (s < 0) \<bar>s\<bar> (2 ^ max k1 k2))"
    unfolding s_def js_add.simps Let_def by (rule refl)
  have p: "(0::int) < 2 ^ max k1 k2" by simp
  show "\<not> js_lt (js_add (Fin m1 k1) (Fin m2 k2)) (Fin 0 0)"
    if "0 \<le> m1 * 2 ^ (max k1 k2 - k1) + m2 * 2 ^ (max k1 k2 - k2)"
  proof (cases "s = 0")
    case True
    then show ?thesis unfolding e by (simp add: js_lt_zero_self)
  next
    case False
    from that have "0 \<le> s" by (simp only: s_def)
    then have n: "\<not> s < 0" by simp
    have "\<not> js_lt (round_frac False \<bar>s\<bar> (2 ^ max k1 k2)) (Fin 0 0)"
      by (rule round_frac_sign(1)) simp_all
    with False n show ?thesis unfolding e by simp
  qed
  show "\<not> js_gt (js_add (Fin m1 k1) (Fin m2 k2)) (Fin 0 0)"
    if "m1 * 2 ^ (max k1 k2 - k1) + m2 * 2 ^ (max k1 k2 - k2) \<le> 0"
  proof (cases "s = 0")
    case True
    then show ?thesis unfolding e by (simp add: js_lt_zero_self)
  next
    case False
    from that have "s \<le> 0" by (simp only: s_def)
    with False have n: "s < 0" by simp
    have "\<not> js_gt (round_frac True \<bar>s\<bar> (2 ^ max k1 k2)) (Fin 0 0)"
      by (rule round_frac_sign(2)) simp_all
    with False n show ?thesis unfolding e by simp
  qed
qed

lemma js_add_zero_sign:
  shows "0 \<le> m \<Longrightarrow> \<not> js_lt (js_add (Fin m k) (Fin 0 0)) (Fin 0 0)"
    and "m \<le> 0 \<Longrightarrow> \<not> js_gt (js_add (Fin m k) (Fin 0 0)) (Fin 0 0)"
proof -
  show "\<not> js_lt (js_add (Fin m k) (Fin 0 0)) (Fin 0 0)" if "0 \<le> m"
    by (rule js_add_sign(1)) (use that in simp)
  show "\<not> js_gt (js_add (Fin m k) (Fin 0 0)) (Fin 0 0)" if "m \<le> 0"
    by (rule js_add_sign(2)) (use that in \<open>simp add: mult_le_0_iff\<close>)
qed

lemma js_sub_nonneg:
  assumes "js_le a b"
  shows "\<not> js_lt (js_sub b a) (Fin 0 0)"
proof (cases b)
  case (Fin m2 k2)
  note b = this
  show ?thesis
  proof (cases a)
    case (Fin m1 k1)
    from assms Fin b have le: "m1 * 2 ^ k2 \<le> m2 * 2 ^ k1"
      by (simp add: js_le_def isNaN_def)
    from pow2_cross_le[OF le] have
      s: "0 \<le> m2 * 2 ^ (max k2 k1 - k2) + (- m1) * 2 ^ (max k2 k1 - k1)"
      by (simp add: max.commute)
    show ?thesis
    proof (cases "m1 = 0")
      case True
      with le have "0 \<le> m2" by (simp add: zero_le_mult_iff)
      with True Fin b show ?thesis
        by (simp add: js_sub_def js_lt_def isNaN_def)
    next
      case False
      with Fin b js_add_sign(1)[OF s] show ?thesis by (simp add: js_sub_def)
    qed
  next
    case NegZero
    with assms b have "0 \<le> m2" by (simp add: js_le_def isNaN_def)
    from js_add_zero_sign(1)[OF this] NegZero b show ?thesis by (simp add: js_sub_def)
  qed (use assms b in \<open>simp_all add: js_le_def js_sub_def js_lt_def isNaN_def\<close>)
qed (use assms in \<open>cases a; simp add: js_le_def js_sub_def js_lt_def isNaN_def zero_le_mult_iff\<close>)+

lemma js_sub_nonpos:
  assumes "js_ge a b"
  shows "\<not> js_gt (js_sub b a) (Fin 0 0)"
proof (cases b)
  case (Fin m2 k2)
  note b = this
  show ?thesis
  proof (cases a)
    case (Fin m1 k1)
    from assms Fin b have le: "m2 * 2 ^ k1 \<le> m1 * 2 ^ k2"
      by (simp add: js_ge_def js_le_def isNaN_def)
    from pow2_cross_le[OF le] have
      s: "m2 * 2 ^ (max k2 k1 - k2) + (- m1) * 2 ^ (max k2 k1 - k1) \<le> 0"
      by simp
    show ?thesis
    proof (cases "m1 = 0")
      case True
      with le have "m2 \<le> 0" by (simp add: mult_le_0_iff)
      with True Fin b show ?thesis
        by (simp add: js_sub_def js_gt_def js_lt_def isNaN_def)
    next
      case False
      with Fin b js_add_sign(2)[OF s] show ?thesis by (simp add: js_sub_def)
    qed
  next
    case NegZero
    with assms b have "m2 \<le> 0" by (simp add: js_ge_def js_le_def isNaN_def)
    from js_add_zero_sign(2)[OF this] NegZero b show ?thesis by (simp add: js_sub_def)
  qed (use assms b in \<open>simp_all add: js_ge_def js_le_def js_sub_def js_gt_def js_lt_def isNaN_def\<close>)
qed (use assms in \<open>cases a; simp add: js_ge_def js_le_def js_sub_def js_gt_def js_lt_def isNaN_def mult_le_0_iff\<close>)+

lemma sign_gt: "js_gt x (Fin 0 0) \<Longrightarrow> sign x = Fin 1 0"
  by (simp add: sign_def)

lemma sign_lt: "js_lt x (Fin 0 0) \<Longrightarrow> sign x = Fin (- 1) 0"
  using gt_not_lt[of x] by (auto simp: sign_def)

lemma sign_neither: "\<not> js_gt x (Fin 0 0) \<Longrightarrow> \<not> js_lt x (Fin 0 0) \<Longrightarrow> sign x = Fin 0 0"
  by (simp add: sign_def)

lemma neither_cases:
  "\<not> js_gt x (Fin 0 0) \<Longrightarrow> \<not> js_lt x (Fin 0 0) \<Longrightarrow> isNaN x \<or> is_zero x"
  by (cases x) (auto simp: js_gt_def js_lt_def isNaN_def is_zero_def is_inf_def)

lemma zero_quotient_length:
  assumes "is_zero d" and "js_gt s (Fin 0 0) \<or> js_lt s (Fin 0 0)"
  shows "js_add (js_floor (js_div d s)) (Fin 1 0) = Fin 1 0"
proof -
  have s: "\<not> isNaN s" "\<not> is_zero s"
    using assms(2) by (cases s; auto simp: js_gt_def js_lt_def isNaN_def is_zero_def is_inf_def)+
  have d: "\<not> isNaN d" "\<not> is_inf d" using assms(1) by (simp_all add: is_zero_def)
  have "js_div d s = NegZero \<or> js_div d s = Fin 0 0"
    using s d assms(1) by (auto simp: js_div_def zero_of_def)
  then have "js_floor (js_div d s) = NegZero \<or> js_floor (js_div d s) = Fin 0 0"
    by auto
  moreover have "js_add (Fin 0 0) (Fin 1 0) = Fin 1 0"
    using js_add_int[of 0 1] by simp
  ultimately show ?thesis by auto
qed

lemma size_same_direction:
  assumes "js_gt (step r) (Fin 0 0) \<and> js_le (start r) (end' r) \<or>
           js_lt (step r) (Fin 0 0) \<and> js_ge (start r) (end' r)"
  shows "size_range r = [if isNaN (spec_length r) then Fin 0 0 else spec_length r]"
proof -
  define d where "d = js_sub (end' r) (start r)"
  have sl: "spec_length r = js_add (js_floor (js_div d (step r))) (Fin 1 0)"
    by (simp add: spec_length_def d_def)
  have sz: "size_range r =
      [let len = (if js_eq (sign (step r)) (sign d)
                 then js_add (js_floor (js_div d (step r))) (Fin 1 0)
                 else if js_eq d (Fin 0 0) then Fin 1 0 else Fin 0 0)
       in if isNaN len then Fin 0 0 else len]"
    by (simp add: size_range_def Let_def d_def)
  have one: "js_eq (Fin 1 0) (Fin 1 0)" "js_eq (Fin (- 1) 0) (Fin (- 1) 0)"
    "\<not> js_eq (Fin 1 0) (Fin 0 0)" "\<not> js_eq (Fin (- 1) 0) (Fin 0 0)"
    "\<not> isNaN (Fin 1 0)" "\<not> isNaN (Fin 0 0)"
    by (simp_all add: js_eq_def isNaN_def)
  from assms consider
    (same) "js_eq (sign (step r)) (sign d)"
    | (zero) "\<not> js_eq (sign (step r)) (sign d)" "is_zero d"
        "js_gt (step r) (Fin 0 0) \<or> js_lt (step r) (Fin 0 0)"
    | (nan) "\<not> js_eq (sign (step r)) (sign d)" "isNaN d"
  proof
    assume up: "js_gt (step r) (Fin 0 0) \<and> js_le (start r) (end' r)"
    then have nl: "\<not> js_lt d (Fin 0 0)" unfolding d_def by (intro js_sub_nonneg) simp
    show ?thesis
    proof (cases "js_gt d (Fin 0 0)")
      case True
      with up have "js_eq (sign (step r)) (sign d)" by (simp add: sign_gt one)
      then show ?thesis by (rule that(1))
    next
      case False
      with nl have sd: "sign d = Fin 0 0" by (simp add: sign_neither)
      with up have ne: "\<not> js_eq (sign (step r)) (sign d)" by (simp add: sign_gt one)
      from neither_cases[OF False nl] show ?thesis
        using ne up that(2,3) by blast
    qed
  next
    assume down: "js_lt (step r) (Fin 0 0) \<and> js_ge (start r) (end' r)"
    then have ng: "\<not> js_gt d (Fin 0 0)" unfolding d_def by (intro js_sub_nonpos) simp
    show ?thesis
    proof (cases "js_lt d (Fin 0 0)")
      case True
      with down have "js_eq (sign (step r)) (sign d)" by (simp add: sign_lt one)
      then show ?thesis by (rule that(1))
    next
      case False
      with ng have sd: "sign d = Fin 0 0" by (simp add: sign_neither)
      with down have ne: "\<not> js_eq (sign (step r)) (sign d)" by (simp add: sign_lt one)
      from neither_cases[OF ng False] show ?thesis
        using ne down that(2,3) by blast
    qed
  qed
  then show ?thesis
  proof cases
    case same
    then show ?thesis by (simp add: sz sl)
  next
    case zero
    have "js_eq d (Fin 0 0)" using zero(2) by (simp add: js_eq_zero_iff)
    moreover have "spec_length r = Fin 1 0"
      unfolding sl using zero(2,3) by (rule zero_quotient_length)
    ultimately show ?thesis using zero(1) by (simp add: sz one)
  next
    case nan
    then have "d = NaN" by (simp add: isNaN_def)
    then have "spec_length r = NaN" "\<not> js_eq d (Fin 0 0)"
      by (simp_all add: sl js_div_def isNaN_def js_eq_def)
    then show ?thesis using nan(1) by (simp add: sz one isNaN_def)
  qed
qed

lemma js_sub_finite_not_NaN:
  assumes "isFinite a" and "isFinite b"
  shows "\<not> isNaN (js_sub b a)"
  using assms
  by (cases a; cases b)
     (simp_all add: isFinite_def isNaN_def is_inf_def js_sub_def Let_def round_frac_not_NaN)

lemma js_div_finite_not_NaN:
  assumes "\<not> isNaN d" and "isFinite s" and "js_gt s (Fin 0 0) \<or> js_lt s (Fin 0 0)"
  shows "\<not> isNaN (js_div d s)"
proof -
  have "\<not> is_zero s"
    using assms(3) by (cases s; auto simp: js_gt_def js_lt_def isNaN_def is_zero_def is_inf_def)
  then show ?thesis
    using assms(1,2)
    by (simp add: js_div_def isFinite_def isNaN_def inf_of_def zero_of_def round_frac_not_NaN)
qed

lemma js_floor_not_NaN: "\<not> isNaN x \<Longrightarrow> \<not> isNaN (js_floor x)"
  by (cases x) (simp_all add: isNaN_def)

lemma spec_length_finite:
  assumes "isFinite (start r)" and "isFinite (step r)" and "isFinite (end' r)"
    and "js_gt (step r) (Fin 0 0) \<or> js_lt (step r) (Fin 0 0)"
  shows "\<not> isNaN (spec_length r)"
proof -
  have "\<not> isNaN (js_sub (end' r) (start r))"
    using assms(1,3) by (rule js_sub_finite_not_NaN)
  then have "\<not> isNaN (js_div (js_sub (end' r) (start r)) (step r))"
    using assms(2,4) by (rule js_div_finite_not_NaN)
  then have "\<not> isNaN (js_floor (js_div (js_sub (end' r) (start r)) (step r)))"
    by (rule js_floor_not_NaN)
  then show ?thesis
    using js_add_one_not_NaN by (simp add: spec_length_def isNaN_def)
qed

lemma progression_map: "progression d n x = map (\<lambda>j. iter_add d j x) [0..<n]"
proof (induction n arbitrary: x)
  case 0
  then show ?case by simp
next
  case (Suc n)
  have "map (\<lambda>j. iter_add d j x) [0..<Suc n] = x # map (\<lambda>j. iter_add d j (js_add x d)) [0..<n]"
    by (simp add: upt_conv_Cons map_Suc_upt[symmetric] del: upt_Suc)
  with Suc[of "js_add x d"] show ?case by simp
qed

lemma length_progression: "length (progression d n x) = n"
  by (simp add: progression_map)

lemma list_all_progression:
  "list_all P (progression d n x) = (\<forall>j<n. P (iter_add d j x))"
  by (auto simp: progression_map list_all_iff)

lemma toArray_count:
  assumes "js_gt (step r) (Fin 0 0) \<and>
       list_all (\<lambda>x. js_le x (end' r)) (progression (step r) n (start r)) \<and>
       \<not> js_le (iter_add (step r) n (start r)) (end' r) \<or>
     js_lt (step r) (Fin 0 0) \<and>
       list_all (\<lambda>x. js_ge x (end' r)) (progression (step r) n (start r)) \<and>
       \<not> js_ge (iter_add (step r) n (start r)) (end' r)"
    and n32: "int n \<le> 2 ^ 32 - 1"
  shows "toArray r = Some (Inr (map Some (progression (step r) n (start r))))"
proof -
  have ix: "iter_add (Fin 1 0) j (Fin 0 0) = Fin (int j) 0" if "j \<le> n" for j
    using iter_add_index[of 0 j] that n32 by simp
  have calls: "map (\<lambda>j. (iter_add (step r) j (start r), iter_add (Fin 1 0) j (Fin 0 0))) [0..<n] =
        map (\<lambda>j. (iter_add (step r) j (start r), Fin (int j) 0)) [0..<n]"
    by (rule map_cong) (simp_all add: ix)
  have run: "run_calls (\<lambda>x i array. Inr (array_put array i x))
        (map (\<lambda>j. (iter_add (step r) j (start r), Fin (int j) 0)) [0..<n]) [] =
      Inr ([] @ map (\<lambda>j. Some (iter_add (step r) j (start r))) [0..<n])"
    using n32 by (intro run_calls_collect) simp_all
  from assms(1) have "forEach (\<lambda>value index obj array. Inr (array_put array index value)) r [] =
      Some (run_calls (\<lambda>x i array. Inr (array_put array i x))
        (map (\<lambda>j. (iter_add (step r) j (start r), iter_add (Fin 1 0) j (Fin 0 0))) [0..<n]) [])"
  proof
    assume up: "js_gt (step r) (Fin 0 0) \<and>
       list_all (\<lambda>x. js_le x (end' r)) (progression (step r) n (start r)) \<and>
       \<not> js_le (iter_add (step r) n (start r)) (end' r)"
    show ?thesis
      using up by (intro forEach_up) (simp_all add: list_all_progression)
  next
    assume down: "js_lt (step r) (Fin 0 0) \<and>
       list_all (\<lambda>x. js_ge x (end' r)) (progression (step r) n (start r)) \<and>
       \<not> js_ge (iter_add (step r) n (start r)) (end' r)"
    show ?thesis
      using down by (intro forEach_down) (simp_all add: list_all_progression)
  qed
  from this[unfolded calls run] show ?thesis
    by (simp add: toArray_def progression_map comp_def)
qed

lemma norm_zero: "norm 0 k = Fin 0 0"
  by (induction k) simp_all

lemma norm_cancel: "norm (m * 2 ^ j) (k + j) = norm m k"
proof (induction j)
  case 0
  then show ?case by simp
next
  case (Suc j)
  have "norm (m * 2 ^ Suc j) (Suc (k + j)) = norm (m * 2 ^ j) (k + j)"
    by simp
  with Suc show ?case by simp
qed

lemma norm_repr: "\<exists>m' k'. norm m k = Fin m' k' \<and> k' \<le> k \<and> m = m' * 2 ^ (k - k')"
proof (induction m k rule: norm.induct)
  case (1 m)
  then show ?case by simp
next
  case (2 m k)
  show ?case
  proof (cases "even m")
    case True
    with 2 obtain m' k' where n: "norm (m div 2) k = Fin m' k'" "k' \<le> k"
      "m div 2 = m' * 2 ^ (k - k')" by blast
    from True have "m = 2 * (m div 2)" by simp
    also have "\<dots> = m' * 2 ^ (Suc k - k')"
      using n(2,3) by (simp add: Suc_diff_le)
    finally show ?thesis using True n(1,2) by auto
  next
    case False
    then show ?thesis by simp
  qed
qed

lemma flog2_pow2:
  assumes "0 < a"
  shows "flog2 a (2 ^ K) = bitlen a - 1 - int K"
proof -
  have bl: "bitlen ((2::int) ^ K) = int K + 1"
    using bitlen_pow2[of 1 K] by (simp add: bitlen_alt_def[of 1])
  from bitlen_bounds[OF assms] have lo: "2 ^ nat (bitlen a - 1) \<le> a" by simp
  have l1: "1 \<le> bitlen a" using assms by (simp add: bitlen_alt_def)
  define e where "e = bitlen a - 1 - int K"
  have c1: "\<not> a < 2 ^ K * 2 ^ nat e" if "0 \<le> e"
  proof -
    have "nat (bitlen a - 1) = K + nat e" using that l1 by (simp add: e_def nat_add_distrib)
    then have "(2::int) ^ K * 2 ^ nat e = 2 ^ nat (bitlen a - 1)" by (simp add: power_add)
    with lo show ?thesis by simp
  qed
  have c2: "\<not> a * 2 ^ nat (- e) < 2 ^ K" if "\<not> 0 \<le> e"
  proof -
    have "K = nat (bitlen a - 1) + nat (- e)" using that l1 by (simp add: e_def)
    then have "(2::int) ^ K = 2 ^ nat (bitlen a - 1) * 2 ^ nat (- e)" by (simp add: power_add)
    moreover have "2 ^ nat (bitlen a - 1) * 2 ^ nat (- e) \<le> a * 2 ^ nat (- e)"
      using lo by (intro mult_right_mono) simp_all
    ultimately show ?thesis by simp
  qed
  have "bitlen a - bitlen ((2::int) ^ K) = e" by (simp add: bl e_def)
  then show ?thesis
    using c1 c2 unfolding flog2_def Let_def e_def[symmetric] by simp
qed

lemma round_frac_exact:
  assumes "0 < a" and "a < 2 ^ 53" and "K \<le> 1074"
  shows "round_frac neg a (2 ^ K) = norm (if neg then - a else a) K"
proof -
  define e where "e = bitlen a - 1 - int K"
  have fl: "flog2 a (2 ^ K) = e" using flog2_pow2[OF assms(1)] by (simp add: e_def)
  have l1: "1 \<le> bitlen a" using assms(1) by (simp add: bitlen_alt_def)
  have l2: "bitlen a \<le> 53" using bitlen_le[OF assms(1,2)] by simp
  define t where "t = max e (- 1022) - 52"
  have rf: "round_frac neg a (2 ^ K) =
     (let m = (if 0 \<le> t then rne_div a (2 ^ K * 2 ^ nat t) else rne_div (a * 2 ^ nat (- t)) (2 ^ K))
      in if 0 \<le> t then
           (if 2 ^ 1024 \<le> m * 2 ^ nat t then inf_of neg
            else Fin ((if neg then - m else m) * 2 ^ nat t) 0)
         else if m = 0 then zero_of neg
         else norm (if neg then - m else m) (nat (- t)))"
    unfolding round_frac_def fl t_def Let_def by (rule refl)
  show ?thesis
  proof (cases "0 \<le> t")
    case True
    then have "52 \<le> e" by (simp add: t_def)
    with l2 have K: "K = 0" and t0: "t = 0" by (simp_all add: e_def t_def)
    show ?thesis using round_frac_int[of a neg] assms(1,2) K by simp
  next
    case False
    define u where "u = nat (- t)"
    have uK: "K \<le> u"
    proof (cases "- 1022 \<le> e")
      case True
      then have "- t = 53 - bitlen a + int K" by (simp add: t_def e_def)
      with l2 show ?thesis by (simp add: u_def)
    next
      case False
      then have "- t = 1074" by (simp add: t_def)
      with assms(3) show ?thesis by (simp add: u_def)
    qed
    have sp: "a * 2 ^ u = (a * 2 ^ (u - K)) * 2 ^ K"
      using uK by (simp add: power_add[symmetric])
    have m: "rne_div (a * 2 ^ u) (2 ^ K) = a * 2 ^ (u - K)"
      unfolding sp by (rule rne_div_exact) simp
    have m0: "a * 2 ^ (u - K) \<noteq> 0" using assms(1) by simp
    have "norm ((if neg then - a else a) * 2 ^ (u - K)) (K + (u - K)) =
        norm (if neg then - a else a) K"
      by (rule norm_cancel)
    then have "norm (if neg then - (a * 2 ^ (u - K)) else a * 2 ^ (u - K)) u =
        norm (if neg then - a else a) K"
      using uK by (cases neg) simp_all
    then show ?thesis
      unfolding rf Let_def u_def[symmetric] using False m m0 by (simp only: if_False)
  qed
qed

lemma rne_div_scale:
  assumes "0 < c"
  shows "rne_div (n * c) (d * c) = rne_div n d"
proof -
  have dv: "(n * c) div (d * c) = n div d" using assms by simp
  have md: "(n * c) mod (d * c) = (n mod d) * c" using assms by (simp add: mod_mult_mult2)
  have l: "(2 * ((n mod d) * c) < d * c) = (2 * (n mod d) < d)"
    using assms mult_less_cancel_right_pos[of c "2 * (n mod d)" d] by (simp add: mult.assoc)
  have g: "(d * c < 2 * ((n mod d) * c)) = (d < 2 * (n mod d))"
    using assms mult_less_cancel_right_pos[of c d "2 * (n mod d)"] by (simp add: mult.assoc)
  show ?thesis unfolding rne_div_def Let_def dv md l g by (rule refl)
qed

lemma flog2_scale:
  assumes "0 < a" and "0 < b"
  shows "flog2 (a * 2 ^ j) (b * 2 ^ j) = flog2 a b"
proof -
  define e where "e = bitlen a - bitlen b"
  have e: "bitlen (a * 2 ^ j) - bitlen (b * 2 ^ j) = e"
    using assms by (simp add: e_def)
  have c1: "(a * 2 ^ j < b * 2 ^ j * 2 ^ nat e) = (a < b * 2 ^ nat e)"
    using mult_less_cancel_right_pos[of "2 ^ j" a "b * 2 ^ nat e"] by (simp add: mult.assoc mult.left_commute mult.commute)
  have c2: "(a * 2 ^ j * 2 ^ nat (- e) < b * 2 ^ j) = (a * 2 ^ nat (- e) < b)"
    using mult_less_cancel_right_pos[of "2 ^ j" "a * 2 ^ nat (- e)" b] by (simp add: mult.assoc mult.left_commute mult.commute)
  show ?thesis
    unfolding flog2_def Let_def e e_def[symmetric] c1 c2 by (rule refl)
qed

lemma round_frac_scale:
  assumes "0 < a" and "0 < b"
  shows "round_frac neg (a * 2 ^ j) (b * 2 ^ j) = round_frac neg a b"
proof -
  have p: "(0::int) < 2 ^ j" by simp
  have r1: "rne_div (a * 2 ^ j) (b * 2 ^ j * 2 ^ nat t) = rne_div a (b * 2 ^ nat t)" for t
    using rne_div_scale[OF p, of a "b * 2 ^ nat t"] by (simp add: mult.assoc mult.left_commute mult.commute)
  have r2: "rne_div (a * 2 ^ j * 2 ^ nat (- t)) (b * 2 ^ j) = rne_div (a * 2 ^ nat (- t)) b" for t
    using rne_div_scale[OF p, of "a * 2 ^ nat (- t)" b] by (simp add: mult.assoc mult.left_commute mult.commute)
  show ?thesis
    unfolding round_frac_def flog2_scale[OF assms] r1 r2 by (rule refl)
qed

lemma js_add_norm:
  assumes "\<bar>x + y\<bar> < 2 ^ 53" and "k \<le> 1074"
  shows "js_add (norm x k) (norm y k) = norm (x + y) k"
proof -
  from norm_repr[of x k] obtain m1 k1 where
    x: "norm x k = Fin m1 k1" "k1 \<le> k" "x = m1 * 2 ^ (k - k1)" by blast
  from norm_repr[of y k] obtain m2 k2 where
    y: "norm y k = Fin m2 k2" "k2 \<le> k" "y = m2 * 2 ^ (k - k2)" by blast
  define K where "K = max k1 k2"
  define s where "s = m1 * 2 ^ (K - k1) + m2 * 2 ^ (K - k2)"
  have Kk: "K \<le> k" "k1 \<le> K" "k2 \<le> K" using x(2) y(2) by (simp_all add: K_def)
  have e: "js_add (Fin m1 k1) (Fin m2 k2) =
      (if s = 0 then Fin 0 0 else round_frac (s < 0) \<bar>s\<bar> (2 ^ K))"
    unfolding s_def K_def js_add.simps Let_def by (rule refl)
  have "s * 2 ^ (k - K) = m1 * (2 ^ (K - k1) * 2 ^ (k - K)) + m2 * (2 ^ (K - k2) * 2 ^ (k - K))"
    by (simp add: s_def algebra_simps)
  also have "\<dots> = m1 * 2 ^ (k - k1) + m2 * 2 ^ (k - k2)"
    using Kk by (simp add: power_add[symmetric])
  finally have sc: "s * 2 ^ (k - K) = x + y" using x(3) y(3) by simp
  have nc: "norm (x + y) k = norm s K"
    using norm_cancel[of s "k - K" K] Kk(1) by (simp add: sc)
  show ?thesis
  proof (cases "s = 0")
    case True
    then show ?thesis using x(1) y(1) e nc by (simp add: norm_zero)
  next
    case False
    have "\<bar>s\<bar> * 1 \<le> \<bar>s\<bar> * 2 ^ (k - K)" by (intro mult_left_mono) simp_all
    also have "\<dots> = \<bar>x + y\<bar>" unfolding sc[symmetric] by (simp add: abs_mult)
    finally have b: "\<bar>s\<bar> < 2 ^ 53" using assms(1) by simp
    have "round_frac (s < 0) \<bar>s\<bar> (2 ^ K) = norm (if s < 0 then - \<bar>s\<bar> else \<bar>s\<bar>) K"
      using False b Kk(1) assms(2) by (intro round_frac_exact) simp_all
    also have "(if s < 0 then - \<bar>s\<bar> else \<bar>s\<bar>) = s" by simp
    finally show ?thesis using x(1) y(1) e nc False by simp
  qed
qed

lemma js_neg_norm: "js_neg (norm x k) = (if x = 0 then NegZero else norm (- x) k)"
proof (induction x k rule: norm.induct)
  case (1 m)
  then show ?case by simp
next
  case (2 m k)
  show ?case
  proof (cases "even m")
    case True
    then have "(- m) div 2 = - (m div 2)" "(m div 2 = 0) = (m = 0)" by auto
    with True 2 show ?thesis by simp
  next
    case False
    then have "m \<noteq> 0" by auto
    with False show ?thesis by simp
  qed
qed

lemma js_add_NegZero_norm: "js_add (norm y k) NegZero = norm y k"
  using norm_repr[of y k] by auto

lemma js_sub_norm:
  assumes "\<bar>y - x\<bar> < 2 ^ 53" and "k \<le> 1074"
  shows "js_sub (norm y k) (norm x k) = norm (y - x) k"
proof (cases "x = 0")
  case True
  then show ?thesis by (simp add: js_sub_def js_neg_norm js_add_NegZero_norm)
next
  case False
  then show ?thesis
    using js_add_norm[of y "- x" k] assms by (simp add: js_sub_def js_neg_norm)
qed

lemma js_le_norm: "js_le (norm x k) (norm y k) = (x \<le> y)"
proof -
  from norm_repr[of x k] obtain m1 k1 where
    x: "norm x k = Fin m1 k1" "k1 \<le> k" "x = m1 * 2 ^ (k - k1)" by blast
  from norm_repr[of y k] obtain m2 k2 where
    y: "norm y k = Fin m2 k2" "k2 \<le> k" "y = m2 * 2 ^ (k - k2)" by blast
  have a: "x * 2 ^ (k1 + k2) = (m1 * 2 ^ k2) * 2 ^ k"
    using x(2,3) by (simp add: power_add[symmetric] mult.assoc)
  have b: "y * 2 ^ (k1 + k2) = (m2 * 2 ^ k1) * 2 ^ k"
    using y(2,3) by (simp add: power_add[symmetric] mult.assoc)
  have "(x \<le> y) = (x * 2 ^ (k1 + k2) \<le> y * 2 ^ (k1 + k2))"
    by (simp only: mult_le_cancel_right_pos zero_less_power zero_less_numeral)
  also have "\<dots> = (m1 * 2 ^ k2 \<le> m2 * 2 ^ k1)"
    unfolding a b by (simp only: mult_le_cancel_right_pos zero_less_power zero_less_numeral)
  finally show ?thesis by (simp add: x(1) y(1) js_le_def isNaN_def)
qed

lemma js_lt_norm: "js_lt (norm x k) (norm y k) = (x < y)"
proof -
  from norm_repr[of x k] obtain m1 k1 where
    x: "norm x k = Fin m1 k1" "k1 \<le> k" "x = m1 * 2 ^ (k - k1)" by blast
  from norm_repr[of y k] obtain m2 k2 where
    y: "norm y k = Fin m2 k2" "k2 \<le> k" "y = m2 * 2 ^ (k - k2)" by blast
  have a: "x * 2 ^ (k1 + k2) = (m1 * 2 ^ k2) * 2 ^ k"
    using x(2,3) by (simp add: power_add[symmetric] mult.assoc)
  have b: "y * 2 ^ (k1 + k2) = (m2 * 2 ^ k1) * 2 ^ k"
    using y(2,3) by (simp add: power_add[symmetric] mult.assoc)
  have "(x < y) = (x * 2 ^ (k1 + k2) < y * 2 ^ (k1 + k2))"
    by (simp only: mult_less_cancel_right_pos zero_less_power zero_less_numeral)
  also have "\<dots> = (m1 * 2 ^ k2 < m2 * 2 ^ k1)"
    unfolding a b by (simp only: mult_less_cancel_right_pos zero_less_power zero_less_numeral)
  finally show ?thesis by (simp add: x(1) y(1) js_lt_def isNaN_def)
qed

lemma js_cmp_norm_zero:
  "js_gt (norm x k) (Fin 0 0) = (0 < x)" "js_lt (norm x k) (Fin 0 0) = (x < 0)"
  using js_lt_norm[of 0 k x] js_lt_norm[of x k 0] by (simp_all add: norm_zero js_gt_def)

lemma js_ge_norm: "js_ge (norm x k) (norm y k) = (y \<le> x)"
  by (simp add: js_ge_def js_le_norm)

lemma js_div_norm:
  assumes "(0 < d \<and> 0 < s) \<or> (d < 0 \<and> s < 0)"
  shows "js_div (norm d k) (norm s k) = round_frac False \<bar>d\<bar> \<bar>s\<bar>"
proof -
  from norm_repr[of d k] obtain m1 k1 where
    d: "norm d k = Fin m1 k1" "k1 \<le> k" "d = m1 * 2 ^ (k - k1)" by blast
  from norm_repr[of s k] obtain m2 k2 where
    s: "norm s k = Fin m2 k2" "k2 \<le> k" "s = m2 * 2 ^ (k - k2)" by blast
  have nz: "m1 \<noteq> 0" "m2 \<noteq> 0" using assms d(3) s(3) by auto
  have sg1: "(m1 < 0) = (d < 0)" unfolding d(3) by (simp add: mult_less_0_iff)
  have sg2: "(m2 < 0) = (s < 0)" unfolding s(3) by (simp add: mult_less_0_iff)
  have sg: "(m1 < 0) = (m2 < 0)" using assms sg1 sg2 by auto
  have dv: "js_div (Fin m1 k1) (Fin m2 k2) = round_frac False (\<bar>m1\<bar> * 2 ^ k2) (\<bar>m2\<bar> * 2 ^ k1)"
    using nz sg by (simp add: js_div_def isNaN_def is_inf_def is_zero_def)
  have p: "0 < \<bar>m1\<bar> * 2 ^ k2" "0 < \<bar>m2\<bar> * 2 ^ k1" "0 < \<bar>d\<bar>" "0 < \<bar>s\<bar>"
    using nz assms by auto
  have a: "\<bar>m1\<bar> * 2 ^ k2 * 2 ^ k = \<bar>d\<bar> * 2 ^ (k1 + k2)"
    unfolding d(3) using d(2) by (simp add: abs_mult power_add[symmetric] mult.assoc)
  have b: "\<bar>m2\<bar> * 2 ^ k1 * 2 ^ k = \<bar>s\<bar> * 2 ^ (k1 + k2)"
    unfolding s(3) using s(2) by (simp add: abs_mult power_add[symmetric] mult.assoc)
  have "round_frac False (\<bar>m1\<bar> * 2 ^ k2) (\<bar>m2\<bar> * 2 ^ k1) =
      round_frac False (\<bar>m1\<bar> * 2 ^ k2 * 2 ^ k) (\<bar>m2\<bar> * 2 ^ k1 * 2 ^ k)"
    using round_frac_scale[OF p(1,2), of False k] by simp
  also have "\<dots> = round_frac False \<bar>d\<bar> \<bar>s\<bar>"
    unfolding a b by (rule round_frac_scale[OF p(3,4)])
  finally show ?thesis using d(1) s(1) dv by simp
qed

lemma js_floor_div_norm:
  assumes "(0 < d \<and> 0 < s) \<or> (d < 0 \<and> s < 0)" and "\<bar>d\<bar> < 2 ^ 52" and "\<bar>s\<bar> \<le> 2 ^ 52"
  shows "js_floor (js_div (norm d k) (norm s k)) = Fin (d div s) 0"
proof -
  have nz: "d \<noteq> 0" "s \<noteq> 0" using assms(1) by auto
  have dv: "\<bar>d\<bar> div \<bar>s\<bar> = d div s" using assms(1) by auto
  show ?thesis
    using js_floor_div_pos[of "\<bar>d\<bar>" "\<bar>s\<bar>"] nz assms(2,3) dv
    by (simp add: js_div_norm[OF assms(1)])
qed

lemma iter_add_norm:
  assumes "\<bar>a\<bar> < 2 ^ 53" and "\<bar>a + int j * s\<bar> < 2 ^ 53" and "k \<le> 1074"
  shows "iter_add (norm s k) j (norm a k) = norm (a + int j * s) k"
  using assms(1,2)
proof (induction j arbitrary: a)
  case 0
  then show ?case by simp
next
  case (Suc j)
  have e: "a + int (Suc j) * s = a + s + int j * s" by (simp add: algebra_simps)
  from Suc.prems have b: "- (2 ^ 53) < a" "a < 2 ^ 53"
    "- (2 ^ 53) < a + s + int j * s" "a + s + int j * s < 2 ^ 53"
    unfolding e by linarith+
  have between: "\<bar>a + s\<bar> < 2 ^ 53"
  proof (cases "0 \<le> s")
    case True
    then have "0 \<le> int j * s" by simp
    with True b show ?thesis by linarith
  next
    case False
    then have "int j * s \<le> 0" by (simp add: mult_nonneg_nonpos)
    with False b show ?thesis by linarith
  qed
  then have st: "js_add (norm a k) (norm s k) = norm (a + s) k"
    using assms(3) by (rule js_add_norm)
  have "iter_add (norm s k) j (norm (a + s) k) = norm (a + s + int j * s) k"
    using between Suc.prems(2) unfolding e by (intro Suc.IH)
  then show ?case by (simp only: iter_add.simps st e)
qed

lemma dyadic_range_bounds:
  assumes "\<bar>a\<bar> \<le> 2 ^ 50" "\<bar>b\<bar> \<le> 2 ^ 50" "\<bar>s\<bar> \<le> 2 ^ 50"
    and "0 < s \<and> a \<le> b \<or> s < 0 \<and> b \<le> a"
    and "j \<le> nat ((b - a) div s + 1)"
  shows "\<bar>a + int j * s\<bar> < 2 ^ 53"
proof -
  define q where "q = (b - a) div s"
  have eq: "b - a = q * s + (b - a) mod s" by (simp add: q_def)
  have nb: "(2::int) ^ 50 = 1125899906842624" "(2::int) ^ 53 = 9007199254740992" by simp_all
  from assms(4) show ?thesis
  proof
    assume up: "0 < s \<and> a \<le> b"
    then have q0: "0 \<le> q" by (simp add: q_def pos_imp_zdiv_nonneg_iff)
    have m: "0 \<le> (b - a) mod s" using up by simp
    from assms(5) q0 have "int j \<le> q + 1" by (simp add: q_def[symmetric])
    then have "int j * s \<le> (q + 1) * s" using up by (intro mult_right_mono) simp_all
    then have hi: "int j * s \<le> b - a + s" using eq m by (simp add: algebra_simps)
    have lo: "0 \<le> int j * s" using up by simp
    from assms(1,2,3) hi lo show ?thesis unfolding nb by linarith
  next
    assume down: "s < 0 \<and> b \<le> a"
    then have q0: "0 \<le> q" by (simp add: q_def neg_imp_zdiv_nonneg_iff)
    have m: "(b - a) mod s \<le> 0" using down by simp
    from assms(5) q0 have "int j \<le> q + 1" by (simp add: q_def[symmetric])
    then have "(q + 1) * s \<le> int j * s" using down by (intro mult_right_mono_neg) simp_all
    then have lo: "b - a + s \<le> int j * s" using eq m by (simp add: algebra_simps)
    have hi: "int j * s \<le> 0" using down by (simp add: mult_nonneg_nonpos)
    from assms(1,2,3) hi lo show ?thesis unfolding nb by linarith
  qed
qed

lemma dyadic_range_size:
  assumes "\<bar>a\<bar> \<le> 2 ^ 50" "\<bar>b\<bar> \<le> 2 ^ 50" "\<bar>s\<bar> \<le> 2 ^ 50"
    and "0 < s \<and> a \<le> b \<or> s < 0 \<and> b \<le> a" and "k \<le> 1074"
  shows "spec_length \<lparr>start = norm a k, step = norm s k, end' = norm b k\<rparr> =
           Fin ((b - a) div s + 1) 0"
proof -
  define d where "d = b - a"
  have db: "\<bar>d\<bar> \<le> 2 ^ 51" using assms(1,2) by (simp add: d_def)
  have sub: "js_sub (norm b k) (norm a k) = norm d k"
    unfolding d_def using db assms(5) by (intro js_sub_norm) (simp_all add: d_def)
  have q0: "0 \<le> d div s" using assms(4)
    by (auto simp: d_def pos_imp_zdiv_nonneg_iff neg_imp_zdiv_nonneg_iff)
  have "d div s \<le> \<bar>d\<bar>"
  proof (cases "0 < s")
    case True
    with assms(4) have "0 \<le> d" by (simp add: d_def)
    then have "d div s \<le> d div 1" using True by (intro zdiv_mono2) simp_all
    then show ?thesis by simp
  next
    case False
    with assms(4) have n: "s < 0" "d \<le> 0" by (simp_all add: d_def)
    have "d div s = (- d) div (- s)" by simp
    also have "\<dots> \<le> (- d) div 1" using n by (intro zdiv_mono2) simp_all
    finally show ?thesis by simp
  qed
  with db q0 have qb: "\<bar>d div s + 1\<bar> \<le> 2 ^ 53" by simp
  have fl: "js_floor (js_div (norm d k) (norm s k)) = Fin (d div s) 0 \<or>
            d = 0 \<and> js_floor (js_div (norm d k) (norm s k)) = NegZero"
  proof (cases "d = 0")
    case True
    have "s \<noteq> 0" using assms(4) by auto
    then have "\<not> is_zero (norm s k)" "\<not> isNaN (norm s k)" "\<not> is_inf (norm s k)"
      using norm_repr[of s k] by (auto simp: is_zero_def isNaN_def is_inf_def)
    then show ?thesis using True
      by (auto simp: norm_zero js_div_def isNaN_def is_inf_def is_zero_def zero_of_def)
  next
    case False
    with assms(4) have "(0 < d \<and> 0 < s) \<or> (d < 0 \<and> s < 0)" by (auto simp: d_def)
    moreover have "\<bar>d\<bar> < 2 ^ 52" "\<bar>s\<bar> \<le> 2 ^ 52" using db assms(3) by simp_all
    ultimately show ?thesis by (simp add: js_floor_div_norm)
  qed
  have "js_add (js_floor (js_div (norm d k) (norm s k))) (Fin 1 0) = Fin (d div s + 1) 0"
    using fl js_add_int[OF qb] by auto
  then show ?thesis
    by (simp add: spec_length_def sub) (simp add: d_def)
qed

lemma dyadic_range_toArray:
  assumes "\<bar>a\<bar> \<le> 2 ^ 50" "\<bar>b\<bar> \<le> 2 ^ 50" "\<bar>s\<bar> \<le> 2 ^ 50"
    and "0 < s \<and> a \<le> b \<or> s < 0 \<and> b \<le> a" and "k \<le> 1074"
  shows "progression (norm s k) (nat ((b - a) div s + 1)) (norm a k) =
           map (\<lambda>j. norm (a + int j * s) k) [0..<nat ((b - a) div s + 1)]"
    and "js_gt (norm s k) (Fin 0 0) \<and> js_le (norm a k) (norm b k) \<and>
       list_all (\<lambda>x. js_le x (norm b k))
         (progression (norm s k) (nat ((b - a) div s + 1)) (norm a k)) \<and>
       \<not> js_le (iter_add (norm s k) (nat ((b - a) div s + 1)) (norm a k)) (norm b k) \<or>
     js_lt (norm s k) (Fin 0 0) \<and> js_ge (norm a k) (norm b k) \<and>
       list_all (\<lambda>x. js_ge x (norm b k))
         (progression (norm s k) (nat ((b - a) div s + 1)) (norm a k)) \<and>
       \<not> js_ge (iter_add (norm s k) (nat ((b - a) div s + 1)) (norm a k)) (norm b k)"
proof -
  define n where "n = nat ((b - a) div s + 1)"
  have a53: "\<bar>a\<bar> < 2 ^ 53"
  proof -
    have "(2::int) ^ 50 < 2 ^ 53" by simp
    with assms(1) show ?thesis by linarith
  qed
  have it: "iter_add (norm s k) j (norm a k) = norm (a + int j * s) k" if "j \<le> n" for j
    using dyadic_range_bounds[OF assms(1-4), of j] that a53 assms(5)
    by (intro iter_add_norm) (simp_all add: n_def)
  show "progression (norm s k) (nat ((b - a) div s + 1)) (norm a k) =
           map (\<lambda>j. norm (a + int j * s) k) [0..<nat ((b - a) div s + 1)]"
    unfolding progression_map n_def[symmetric] by (rule map_cong) (simp_all add: it)
  from assms(4) show "js_gt (norm s k) (Fin 0 0) \<and> js_le (norm a k) (norm b k) \<and>
       list_all (\<lambda>x. js_le x (norm b k))
         (progression (norm s k) (nat ((b - a) div s + 1)) (norm a k)) \<and>
       \<not> js_le (iter_add (norm s k) (nat ((b - a) div s + 1)) (norm a k)) (norm b k) \<or>
     js_lt (norm s k) (Fin 0 0) \<and> js_ge (norm a k) (norm b k) \<and>
       list_all (\<lambda>x. js_ge x (norm b k))
         (progression (norm s k) (nat ((b - a) div s + 1)) (norm a k)) \<and>
       \<not> js_ge (iter_add (norm s k) (nat ((b - a) div s + 1)) (norm a k)) (norm b k)"
  proof
    assume up: "0 < s \<and> a \<le> b"
    have "\<not> js_le (iter_add (norm s k) n (norm a k)) (norm b k)"
      using count_up(1)[of s a b] up by (simp add: it js_le_norm n_def)
    moreover have "js_le (iter_add (norm s k) j (norm a k)) (norm b k)" if "j < n" for j
      using count_up(2)[of s a b j] up that by (simp add: it js_le_norm n_def)
    ultimately show ?thesis
      using up unfolding n_def[symmetric]
      by (simp add: list_all_progression js_cmp_norm_zero js_le_norm)
  next
    assume down: "s < 0 \<and> b \<le> a"
    have "\<not> js_ge (iter_add (norm s k) n (norm a k)) (norm b k)"
      using count_down(1)[of s b a] down by (simp add: it js_ge_norm n_def)
    moreover have "js_ge (iter_add (norm s k) j (norm a k)) (norm b k)" if "j < n" for j
      using count_down(2)[of s b a j] down that by (simp add: it js_ge_norm n_def)
    ultimately show ?thesis
      using down unfolding n_def[symmetric]
      by (simp add: list_all_progression js_cmp_norm_zero js_ge_norm)
  qed
qed

text \<open>
  Claim C3, as the code has it. With \<open>spec_length\<close> the value
  \<open>floor((end - start) / step) + 1\<close> of binary64 arithmetic: for every Range with
  \<open>step > 0\<close> and \<open>start <= end\<close>, or \<open>step < 0\<close> and \<open>start >= end\<close>,
  \<^verbatim>\<open>size()[0]\<close> is \<open>spec_length\<close>, with 0 in place of NaN; it is not NaN when start,
  step and end are finite. \<^verbatim>\<open>toArray()\<close> returns the values of the traversal: when
  \<open>n\<close> values pass the comparison with end, the next one fails it, \<open>n\<close> is at most
  \<open>2^32 - 1\<close> and \<open>spec_length\<close> is \<open>n\<close>, both \<^verbatim>\<open>size()[0]\<close> and
  \<^verbatim>\<open>toArray().length\<close> equal \<open>floor((end - start) / step) + 1\<close>. That is so
  wherever the arithmetic is exact: for every Range whose start, step and end are the
  multiples \<open>a / 2^k\<close>, \<open>s / 2^k\<close> and \<open>b / 2^k\<close> of one power of two, with integers
  \<open>a\<close>, \<open>s\<close> and \<open>b\<close> of magnitude at most \<open>2^50\<close> (integer fields are the case
  \<open>k = 0\<close>) and with at most \<open>2^32 - 1\<close> elements; there \<^verbatim>\<open>toArray()\<close> is the
  list of the values \<open>(a + j * s) / 2^k\<close>. It is also so on \<^verbatim>\<open>0:0.2:10\<close>, where the
  arithmetic rounds. \<^verbatim>\<open>toArray()\<close> does not return when no value fails the
  comparison.
\<close>

theorem range_length:
  "(js_gt (step r) (Fin 0 0) \<and> js_le (start r) (end' r) \<or>
    js_lt (step r) (Fin 0 0) \<and> js_ge (start r) (end' r) \<longrightarrow>
      size_range r = [if isNaN (spec_length r) then Fin 0 0 else spec_length r] \<and>
      (isFinite (start r) \<and> isFinite (step r) \<and> isFinite (end' r) \<longrightarrow>
         size_range r = [spec_length r])) \<and>
   ((js_gt (step r) (Fin 0 0) \<and> js_le (start r) (end' r) \<and>
       list_all (\<lambda>x. js_le x (end' r)) (progression (step r) n (start r)) \<and>
       \<not> js_le (iter_add (step r) n (start r)) (end' r) \<or>
     js_lt (step r) (Fin 0 0) \<and> js_ge (start r) (end' r) \<and>
       list_all (\<lambda>x. js_ge x (end' r)) (progression (step r) n (start r)) \<and>
       \<not> js_ge (iter_add (step r) n (start r)) (end' r)) \<and>
    int n \<le> 2 ^ 32 - 1 \<and> spec_length r = Fin (int n) 0 \<longrightarrow>
      size_range r = [Fin (int n) 0] \<and>
      (\<exists>xs. toArray r = Some (Inr xs) \<and> length xs = n \<and>
            xs = map Some (progression (step r) n (start r)))) \<and>
   (k \<le> 1074 \<and> \<bar>a\<bar> \<le> 2 ^ 50 \<and> \<bar>b\<bar> \<le> 2 ^ 50 \<and> \<bar>s\<bar> \<le> 2 ^ 50 \<and>
    (0 < s \<and> a \<le> b \<or> s < 0 \<and> b \<le> a) \<and> (b - a) div s + 1 \<le> 2 ^ 32 - 1 \<longrightarrow>
      spec_length \<lparr>start = norm a k, step = norm s k, end' = norm b k\<rparr> =
        Fin ((b - a) div s + 1) 0 \<and>
      size_range \<lparr>start = norm a k, step = norm s k, end' = norm b k\<rparr> =
        [Fin ((b - a) div s + 1) 0] \<and>
      toArray \<lparr>start = norm a k, step = norm s k, end' = norm b k\<rparr> =
        Some (Inr (map (\<lambda>j. Some (norm (a + int j * s) k)) [0..<nat ((b - a) div s + 1)])) \<and>
      (\<exists>xs. toArray \<lparr>start = norm a k, step = norm s k, end' = norm b k\<rparr> = Some (Inr xs) \<and>
            int (length xs) = (b - a) div s + 1))"
proof (intro conjI impI)
  assume d: "js_gt (step r) (Fin 0 0) \<and> js_le (start r) (end' r) \<or>
    js_lt (step r) (Fin 0 0) \<and> js_ge (start r) (end' r)"
  then show sz: "size_range r = [if isNaN (spec_length r) then Fin 0 0 else spec_length r]"
    by (rule size_same_direction)
  assume "isFinite (start r) \<and> isFinite (step r) \<and> isFinite (end' r)"
  with d have "\<not> isNaN (spec_length r)" by (intro spec_length_finite) auto
  with sz show "size_range r = [spec_length r]" by simp
next
  assume h: "(js_gt (step r) (Fin 0 0) \<and> js_le (start r) (end' r) \<and>
       list_all (\<lambda>x. js_le x (end' r)) (progression (step r) n (start r)) \<and>
       \<not> js_le (iter_add (step r) n (start r)) (end' r) \<or>
     js_lt (step r) (Fin 0 0) \<and> js_ge (start r) (end' r) \<and>
       list_all (\<lambda>x. js_ge x (end' r)) (progression (step r) n (start r)) \<and>
       \<not> js_ge (iter_add (step r) n (start r)) (end' r)) \<and>
    int n \<le> 2 ^ 32 - 1 \<and> spec_length r = Fin (int n) 0"
  then have "js_gt (step r) (Fin 0 0) \<and> js_le (start r) (end' r) \<or>
    js_lt (step r) (Fin 0 0) \<and> js_ge (start r) (end' r)" by blast
  from size_same_direction[OF this] h show "size_range r = [Fin (int n) 0]"
    by (simp add: isNaN_def)
  have "toArray r = Some (Inr (map Some (progression (step r) n (start r))))"
    using h by (intro toArray_count) blast+
  then show "\<exists>xs. toArray r = Some (Inr xs) \<and> length xs = n \<and>
            xs = map Some (progression (step r) n (start r))"
    by (simp add: length_progression)
next
  let ?r = "\<lparr>start = norm a k, step = norm s k, end' = norm b k\<rparr>"
  assume "k \<le> 1074 \<and> \<bar>a\<bar> \<le> 2 ^ 50 \<and> \<bar>b\<bar> \<le> 2 ^ 50 \<and> \<bar>s\<bar> \<le> 2 ^ 50 \<and>
    (0 < s \<and> a \<le> b \<or> s < 0 \<and> b \<le> a) \<and> (b - a) div s + 1 \<le> 2 ^ 32 - 1"
  then have h: "\<bar>a\<bar> \<le> 2 ^ 50" "\<bar>b\<bar> \<le> 2 ^ 50" "\<bar>s\<bar> \<le> 2 ^ 50"
    "0 < s \<and> a \<le> b \<or> s < 0 \<and> b \<le> a" "k \<le> 1074"
    and n32: "(b - a) div s + 1 \<le> 2 ^ 32 - 1"
    by blast+
  define n where "n = nat ((b - a) div s + 1)"
  have "0 \<le> (b - a) div s" using h(4)
    by (auto simp: pos_imp_zdiv_nonneg_iff neg_imp_zdiv_nonneg_iff)
  then have len: "int n = (b - a) div s + 1" by (simp add: n_def)
  show sl: "spec_length ?r = Fin ((b - a) div s + 1) 0"
    by (rule dyadic_range_size[OF h])
  have dir: "js_gt (step ?r) (Fin 0 0) \<and>
       list_all (\<lambda>x. js_le x (end' ?r)) (progression (step ?r) n (start ?r)) \<and>
       \<not> js_le (iter_add (step ?r) n (start ?r)) (end' ?r) \<or>
     js_lt (step ?r) (Fin 0 0) \<and>
       list_all (\<lambda>x. js_ge x (end' ?r)) (progression (step ?r) n (start ?r)) \<and>
       \<not> js_ge (iter_add (step ?r) n (start ?r)) (end' ?r)"
    and sd: "js_gt (step ?r) (Fin 0 0) \<and> js_le (start ?r) (end' ?r) \<or>
       js_lt (step ?r) (Fin 0 0) \<and> js_ge (start ?r) (end' ?r)"
    using dyadic_range_toArray(2)[OF h] unfolding n_def by auto
  from size_same_direction[OF sd] sl
  show "size_range ?r = [Fin ((b - a) div s + 1) 0]" by (simp add: isNaN_def)
  have "toArray ?r = Some (Inr (map Some (progression (step ?r) n (start ?r))))"
    using dir n32 len by (intro toArray_count) simp_all
  then show t: "toArray ?r =
      Some (Inr (map (\<lambda>j. Some (norm (a + int j * s) k)) [0..<nat ((b - a) div s + 1)]))"
    using dyadic_range_toArray(1)[OF h] by (simp add: n_def comp_def)
  show "\<exists>xs. toArray ?r = Some (Inr xs) \<and> int (length xs) = (b - a) div s + 1"
    using t len by (simp add: n_def)
qed

theorem range_length_witness:
  "size_range \<lparr>start = Fin 0 0, step = Fin 1 2, end' = Fin 1 0\<rparr> = [Fin 5 0] \<and>
   toArray \<lparr>start = Fin 0 0, step = Fin 1 2, end' = Fin 1 0\<rparr> =
     Some (Inr [Some (Fin 0 0), Some (Fin 1 2), Some (Fin 1 1), Some (Fin 3 2), Some (Fin 1 0)]) \<and>
   size_range \<lparr>start = Fin 0 0, step = Fin 3602879701896397 54, end' = Fin 10 0\<rparr> = [Fin 51 0] \<and>
   (\<exists>xs. toArray \<lparr>start = Fin 0 0, step = Fin 3602879701896397 54, end' = Fin 10 0\<rparr> =
           Some (Inr xs) \<and> length xs = 51) \<and>
   size_range \<lparr>start = Fin 1 0, step = Fin (- 3602879701896397) 54, end' = Fin 0 0\<rparr> = [Fin 6 0] \<and>
   (\<exists>xs. toArray \<lparr>start = Fin 1 0, step = Fin (- 3602879701896397) 54, end' = Fin 0 0\<rparr> =
           Some (Inr xs) \<and> length xs = 6) \<and>
   size_range \<lparr>start = Fin 0 0, step = Fin 3602879701896397 55, end' = Fin 5404319552844595 53\<rparr> =
     [spec_length \<lparr>start = Fin 0 0, step = Fin 3602879701896397 55,
                   end' = Fin 5404319552844595 53\<rparr>] \<and>
   size_range \<lparr>start = Fin 2 0, step = Fin 1 0, end' = Fin 5 0\<rparr> = [Fin 4 0] \<and>
   toArray \<lparr>start = Fin 2 0, step = Fin 1 0, end' = Fin 5 0\<rparr> =
     Some (Inr [Some (Fin 2 0), Some (Fin 3 0), Some (Fin 4 0), Some (Fin 5 0)]) \<and>
   size_range \<lparr>start = Fin 2 0, step = Fin (- 1) 0, end' = Fin (- 2) 0\<rparr> = [Fin 5 0] \<and>
   toArray \<lparr>start = Fin 2 0, step = Fin (- 1) 0, end' = Fin (- 2) 0\<rparr> =
     Some (Inr [Some (Fin 2 0), Some (Fin 1 0), Some (Fin 0 0), Some (Fin (- 1) 0),
                Some (Fin (- 2) 0)])"
proof -
  let ?f = "\<lparr>start = Fin 0 0, step = Fin 3602879701896397 54, end' = Fin 10 0\<rparr>"
  let ?g = "\<lparr>start = Fin 1 0, step = Fin (- 3602879701896397) 54, end' = Fin 0 0\<rparr>"
  let ?t = "\<lparr>start = Fin 0 0, step = Fin 3602879701896397 55, end' = Fin 5404319552844595 53\<rparr>"
  have f: "js_gt (Fin 3602879701896397 54) (Fin 0 0)" "js_le (Fin 0 0) (Fin 10 0)"
    "list_all (\<lambda>x. js_le x (Fin 10 0)) (progression (Fin 3602879701896397 54) 51 (Fin 0 0))"
    "\<not> js_le (iter_add (Fin 3602879701896397 54) 51 (Fin 0 0)) (Fin 10 0)"
    "spec_length ?f = Fin (int 51) 0"
    by code_simp+
  have g: "js_lt (Fin (- 3602879701896397) 54) (Fin 0 0)" "js_ge (Fin 1 0) (Fin 0 0)"
    "list_all (\<lambda>x. js_ge x (Fin 0 0)) (progression (Fin (- 3602879701896397) 54) 6 (Fin 1 0))"
    "\<not> js_ge (iter_add (Fin (- 3602879701896397) 54) 6 (Fin 1 0)) (Fin 0 0)"
    "spec_length ?g = Fin (int 6) 0"
    by code_simp+
  have t: "js_gt (Fin 3602879701896397 55) (Fin 0 0)" "js_le (Fin 0 0) (Fin 5404319552844595 53)"
    "isFinite (Fin 0 0)" "isFinite (Fin 3602879701896397 55)" "isFinite (Fin 5404319552844595 53)"
    by code_simp+
  have n: "int 6 \<le> 2 ^ 32 - 1" "int 51 \<le> 2 ^ 32 - 1" "int 6 = 6" "int 51 = 51" by simp_all
  have q: "norm 0 2 = Fin 0 0" "norm 1 2 = Fin 1 2" "norm 4 2 = Fin 1 0"
    "map (\<lambda>j. Some (norm (0 + int j * 1) 2)) [0..<nat ((4 - 0) div 1 + 1)] =
      [Some (Fin 0 0), Some (Fin 1 2), Some (Fin 1 1), Some (Fin 3 2), Some (Fin 1 0)]"
    and u: "map (\<lambda>j. Some (norm (2 + int j * 1) 0)) [0..<nat ((5 - 2) div 1 + 1)] =
      [Some (Fin 2 0), Some (Fin 3 0), Some (Fin 4 0), Some (Fin 5 0)]"
    and v: "map (\<lambda>j. Some (norm (2 + int j * (- 1)) 0)) [0..<nat ((- 2 - 2) div (- 1) + 1)] =
      [Some (Fin 2 0), Some (Fin 1 0), Some (Fin 0 0), Some (Fin (- 1) 0), Some (Fin (- 2) 0)]"
    by code_simp+
  from range_length [where r = ?t and n = 0 and a = 0 and b = 4 and s = 1 and k = 2] have A:
    "size_range \<lparr>start = norm 0 2, step = norm 1 2, end' = norm 4 2\<rparr> = [Fin 5 0]"
    "toArray \<lparr>start = norm 0 2, step = norm 1 2, end' = norm 4 2\<rparr> =
       Some (Inr (map (\<lambda>j. Some (norm (0 + int j * 1) 2)) [0..<nat ((4 - 0) div 1 + 1)]))"
    by simp_all
  have C: "size_range ?f = [Fin 51 0] \<and> (\<exists>xs. toArray ?f = Some (Inr xs) \<and> length xs = 51)"
    using range_length [where r = ?f and n = 51 and a = 0 and b = 0 and s = 1 and k = 0] f n(2)
    by (simp only: range_obj.simps simp_thms n(4)) (auto simp: isNaN_def)
  have B: "size_range ?g = [Fin 6 0] \<and> (\<exists>xs. toArray ?g = Some (Inr xs) \<and> length xs = 6)"
    using range_length [where r = ?g and n = 6 and a = 0 and b = 0 and s = 1 and k = 0] g n(1)
    by (simp only: range_obj.simps simp_thms n(3)) (auto simp: isNaN_def)
  have D: "size_range ?t = [spec_length ?t]"
    using range_length [where r = ?t and n = 0 and a = 0 and b = 0 and s = 1 and k = 0,
        THEN conjunct1] t
    by (simp only: range_obj.simps) blast
  from range_length [where r = ?t and n = 0 and a = 2 and b = 5 and s = 1 and k = 0] have E:
    "size_range \<lparr>start = Fin 2 0, step = Fin 1 0, end' = Fin 5 0\<rparr> = [Fin 4 0]"
    "toArray \<lparr>start = Fin 2 0, step = Fin 1 0, end' = Fin 5 0\<rparr> =
       Some (Inr (map (\<lambda>j. Some (norm (2 + int j * 1) 0)) [0..<nat ((5 - 2) div 1 + 1)]))"
    by simp_all
  from range_length [where r = ?t and n = 0 and a = 2 and b = "- 2" and s = "- 1" and k = 0] have F:
    "size_range \<lparr>start = Fin 2 0, step = Fin (- 1) 0, end' = Fin (- 2) 0\<rparr> = [Fin 5 0]"
    "toArray \<lparr>start = Fin 2 0, step = Fin (- 1) 0, end' = Fin (- 2) 0\<rparr> =
       Some (Inr (map (\<lambda>j. Some (norm (2 + int j * (- 1)) 0)) [0..<nat ((- 2 - 2) div (- 1) + 1)]))"
    by simp_all
  from A B C D E F show ?thesis by (simp only: q u v simp_thms)
qed

theorem range_length_counterexample:
  "js_gt (step \<lparr>start = Fin 0 0, step = Fin 1 0, end' = PInf\<rparr>) (Fin 0 0) \<and>
   js_le (start \<lparr>start = Fin 0 0, step = Fin 1 0, end' = PInf\<rparr>)
     (end' \<lparr>start = Fin 0 0, step = Fin 1 0, end' = PInf\<rparr>) \<and>
   size_range \<lparr>start = Fin 0 0, step = Fin 1 0, end' = PInf\<rparr> = [PInf] \<and>
   toArray \<lparr>start = Fin 0 0, step = Fin 1 0, end' = PInf\<rparr> = None \<and>
   parse (Str (ascii ''0:0.1:0.6'')) =
     Inr (Some \<lparr>start = Fin 0 0, step = Fin 3602879701896397 55, end' = Fin 5404319552844595 53\<rparr>) \<and>
   js_gt (Fin 3602879701896397 55) (Fin 0 0) \<and>
   js_le (Fin 0 0) (Fin 5404319552844595 53) \<and>
   spec_length \<lparr>start = Fin 0 0, step = Fin 3602879701896397 55, end' = Fin 5404319552844595 53\<rparr> =
     Fin 6 0 \<and>
   size_range \<lparr>start = Fin 0 0, step = Fin 3602879701896397 55, end' = Fin 5404319552844595 53\<rparr> =
     [Fin 6 0] \<and>
   toArray \<lparr>start = Fin 0 0, step = Fin 3602879701896397 55, end' = Fin 5404319552844595 53\<rparr> =
     Some (Inr [Some (Fin 0 0), Some (Fin 3602879701896397 55), Some (Fin 3602879701896397 54),
                Some (Fin 1351079888211149 52), Some (Fin 3602879701896397 53), Some (Fin 1 1),
                Some (Fin 5404319552844595 53)]) \<and>
   length [Some (Fin 0 0), Some (Fin 3602879701896397 55), Some (Fin 3602879701896397 54),
           Some (Fin 1351079888211149 52), Some (Fin 3602879701896397 53), Some (Fin 1 1),
           Some (Fin 5404319552844595 53)] = 7"
proof -
  have gt: "js_gt (Fin 1 0) (Fin 0 0)" by code_simp
  have inf: "\<And>k. js_le (iter_add (Fin 1 0) k (Fin 0 0)) PInf"
    by (simp add: js_le_PInf iter_add_one_not_NaN)
  have 1: "toArray \<lparr>start = Fin 0 0, step = Fin 1 0, end' = PInf\<rparr> = None"
    using gt inf by (simp add: toArray_def forEach_def while_loop_diverges)
  have 2: "js_gt (step \<lparr>start = Fin 0 0, step = Fin 1 0, end' = PInf\<rparr>) (Fin 0 0) \<and>
   js_le (start \<lparr>start = Fin 0 0, step = Fin 1 0, end' = PInf\<rparr>)
     (end' \<lparr>start = Fin 0 0, step = Fin 1 0, end' = PInf\<rparr>) \<and>
   size_range \<lparr>start = Fin 0 0, step = Fin 1 0, end' = PInf\<rparr> = [PInf]"
    by code_simp
  have 3: "parse (Str (ascii ''0:0.1:0.6'')) =
     Inr (Some \<lparr>start = Fin 0 0, step = Fin 3602879701896397 55, end' = Fin 5404319552844595 53\<rparr>) \<and>
   js_gt (Fin 3602879701896397 55) (Fin 0 0) \<and>
   js_le (Fin 0 0) (Fin 5404319552844595 53) \<and>
   spec_length \<lparr>start = Fin 0 0, step = Fin 3602879701896397 55, end' = Fin 5404319552844595 53\<rparr> =
     Fin 6 0 \<and>
   size_range \<lparr>start = Fin 0 0, step = Fin 3602879701896397 55, end' = Fin 5404319552844595 53\<rparr> =
     [Fin 6 0] \<and>
   toArray \<lparr>start = Fin 0 0, step = Fin 3602879701896397 55, end' = Fin 5404319552844595 53\<rparr> =
     Some (Inr [Some (Fin 0 0), Some (Fin 3602879701896397 55), Some (Fin 3602879701896397 54),
                Some (Fin 1351079888211149 52), Some (Fin 3602879701896397 53), Some (Fin 1 1),
                Some (Fin 5404319552844595 53)]) \<and>
   length [Some (Fin 0 0), Some (Fin 3602879701896397 55), Some (Fin 3602879701896397 54),
           Some (Fin 1351079888211149 52), Some (Fin 3602879701896397 53), Some (Fin 1 1),
           Some (Fin 5404319552844595 53)] = 7"
    by code_simp
  from 1 2 3 show ?thesis by (simp only: simp_thms)
qed

end
